theory Spec2Isabelle
  imports Complex_Main "HOL-Library.Word"
begin

section \<open>The streaming JSON encoder of encoder.go\<close>

text \<open>
  A shallow embedding of \<^verbatim>\<open>src/encoder.go\<close>. Bytes are 8-bit words. A byte slice is a
  list where a call only copies its bytes (the appends), and a view into a memory of arrays
  where the array behind it matters (\<^verbatim>\<open>Escape\<close> and the writers of keyed values, which
  share the buffers of a pool). The counters (\<^verbatim>\<open>int64\<close>) and the depth (\<^verbatim>\<open>int\<close>, 64 bits on the usual targets) are
  64-bit words whose arithmetic wraps; \<^verbatim>\<open>Indent\<close> and \<^verbatim>\<open>Precision\<close> are only copied and
  compared and are plain integers. A panic is a value: every operation that can panic
  returns either the panic together with the encoder as the panic left it (the encoder
  lives on the heap and the deferred \<^verbatim>\<open>Release\<close> still sees it), or its normal result.

  Of the three pools, \<^verbatim>\<open>bufPool\<close> is modelled where scratch buffers come from it
  (\<^verbatim>\<open>Escape\<close> and the writers of keyed values, over a memory of arrays); the encoder and the
  buffer that \<^verbatim>\<open>GetEncoder\<close> takes are arguments, and the buffer that \<^verbatim>\<open>Release\<close> puts back is
  a result. The goroutine of \<^verbatim>\<open>WithTimeout\<close> is an event between two calls. \<^verbatim>\<open>RoundFloat\<close>
  computes in \<^verbatim>\<open>float64\<close>, modelled as the reals with the rounding of IEEE 754.

  Left out: \<^verbatim>\<open>Logf\<close>, and \<^verbatim>\<open>writeFloat64Key\<close> with its two callers, which format a float
  with \<^verbatim>\<open>strconv.AppendFloat\<close>.
\<close>

subsection \<open>Constants\<close>

type_synonym byte = "8 word"

definition quoteMark :: byte where "quoteMark = 34"
definition delim :: byte where "delim = 44"
definition colon :: byte where "colon = 58"
definition lBrace :: byte where "lBrace = 123"
definition rBrace :: byte where "rBrace = 125"
definition lBracket :: byte where "lBracket = 91"
definition rBracket :: byte where "rBracket = 93"
definition newLine :: byte where "newLine = 10"
definition space :: byte where "space = 32"
definition tab :: byte where "tab = 9"
definition backslash :: byte where "backslash = 92"

definition MAXBUFSIZE :: nat where "MAXBUFSIZE = 4096"
definition INDENT :: "64 word" where "INDENT = 4"
definition SPACE_MODE :: int where "SPACE_MODE = 0"
definition TAB_MODE :: int where "TAB_MODE = 1"
definition PRECISION :: int where "PRECISION = 6"

text \<open>The bytes of an ASCII string literal, to write expected outputs as the tests do.\<close>

definition bytes_of :: "string \<Rightarrow> byte list" where
  "bytes_of str = map (\<lambda>ch. of_nat (of_char ch)) str"

subsection \<open>The standard library objects the encoder holds\<close>

text \<open>
  \<^verbatim>\<open>bytes.Buffer\<close> belongs to Go's standard library. The model keeps what the encoder
  observes of it: the unread bytes (\<^verbatim>\<open>Bytes()\<close>, \<^verbatim>\<open>Len()\<close>) and the capacity (\<^verbatim>\<open>Cap()\<close>).
  How the capacity changes when bytes are written is decided by the library and the
  allocator, not by this repository; the field \<open>alloc\<close> stands for that decision (from the
  capacity before, the number of unread bytes and the number of bytes asked for, it gives
  the capacity after) and is left arbitrary.
\<close>

record Buffer =
  buf :: "byte list"
  cap :: nat
  alloc :: "nat \<Rightarrow> nat \<Rightarrow> nat \<Rightarrow> nat"

definition Buffer_Len :: "Buffer \<Rightarrow> nat" where
  "Buffer_Len bb = length (buf bb)"

definition Buffer_Cap :: "Buffer \<Rightarrow> nat" where
  "Buffer_Cap bb = cap bb"

definition Buffer_Bytes :: "Buffer \<Rightarrow> byte list" where
  "Buffer_Bytes bb = buf bb"

definition Buffer_Reset :: "Buffer \<Rightarrow> Buffer" where
  "Buffer_Reset bb = bb\<lparr>buf := []\<rparr>"

definition Buffer_Grow :: "Buffer \<Rightarrow> nat \<Rightarrow> Buffer" where
  "Buffer_Grow bb k = bb\<lparr>cap := alloc bb (cap bb) (length (buf bb)) k\<rparr>"

definition Buffer_Write :: "Buffer \<Rightarrow> byte list \<Rightarrow> Buffer" where
  "Buffer_Write bb p =
     bb\<lparr>buf := buf bb @ p, cap := alloc bb (cap bb) (length (buf bb)) (length p)\<rparr>"

definition Buffer_WriteByte :: "Buffer \<Rightarrow> byte \<Rightarrow> Buffer" where
  "Buffer_WriteByte bb v = Buffer_Write bb [v]"

text \<open>
  \<^verbatim>\<open>io.PipeWriter\<close>: the write end of a synchronous pipe. A write hands the slice to the
  reader and returns its length, unless either end has been closed, when it returns an
  error and nothing is delivered. \<open>received\<close> lists the slices delivered, in order.
\<close>

record Pipe =
  received :: "byte list list"
  rclosed :: bool
  wclosed :: bool

definition Pipe_Write :: "Pipe \<Rightarrow> byte list \<Rightarrow> nat \<times> bool \<times> Pipe" where
  "Pipe_Write p bs =
     (if rclosed p \<or> wclosed p then (0, True, p)
      else (length bs, False, p\<lparr>received := received p @ [bs]\<rparr>))"

definition Pipe_Close :: "Pipe \<Rightarrow> Pipe" where
  "Pipe_Close p = p\<lparr>wclosed := True\<rparr>"

definition Pipe_CloseReader :: "Pipe \<Rightarrow> Pipe" where
  "Pipe_CloseReader p = p\<lparr>rclosed := True\<rparr>"

subsection \<open>EncoderConfig and Encoder\<close>

record EncoderConfig =
  Indent :: int
  Logging :: bool
  UTCTimestamps :: bool
  Round :: bool
  Precision :: int
  Pretty :: bool

text \<open>
  The fields of \<^verbatim>\<open>Encoder\<close>, prefixed with \<open>enc_\<close>. The context and its cancel function
  are the flag \<open>cancelled\<close>: \<^verbatim>\<open>enc.cancel()\<close> sets it, \<^verbatim>\<open><-enc.Done()\<close> is ready when it is
  set. \<open>enc_b\<close> and \<open>enc_w\<close> are pointers and may be nil. The pipe is shared with the reader;
  its state is kept in \<open>enc_w\<close> while the encoder points to it.
\<close>

record Encoder =
  enc_b :: "Buffer option"
  enc_n :: "64 word"
  enc_f :: "64 word"
  enc_d :: "64 word"
  enc_s :: bool
  recoveredPanicsCounter :: "64 word"
  encoderTimeoutsCounter :: "64 word"
  enc_w :: "Pipe option"
  enc_c :: EncoderConfig
  cancelled :: bool

datatype panic = WriteError | NilPointer

type_synonym 'a result = "(panic \<times> Encoder) + 'a"

definition andThen :: "Encoder result \<Rightarrow> (Encoder \<Rightarrow> 'a result) \<Rightarrow> 'a result" where
  "andThen r k = (case r of Inl x \<Rightarrow> Inl x | Inr e \<Rightarrow> k e)"

definition NewEncoder :: Encoder where
  "NewEncoder =
     \<lparr>enc_b = None, enc_n = 0, enc_f = 0, enc_d = 0, enc_s = False,
      recoveredPanicsCounter = 0, encoderTimeoutsCounter = 0, enc_w = None,
      enc_c = \<lparr>Indent = SPACE_MODE, Logging = True, UTCTimestamps = False, Round = True,
               Precision = PRECISION, Pretty = False\<rparr>,
      cancelled = False\<rparr>"

text \<open>
  \<^verbatim>\<open>GetEncoder(w)\<close>: \<open>enc\<close> is the encoder and \<open>pb\<close> the buffer that the two pools hand out.
\<close>

definition GetEncoder :: "Encoder \<Rightarrow> Buffer \<Rightarrow> Pipe option \<Rightarrow> Encoder" where
  "GetEncoder enc pb w =
     (let b0 = Buffer_Reset pb;
          b1 = (if Buffer_Cap b0 < MAXBUFSIZE then Buffer_Grow b0 (MAXBUFSIZE - Buffer_Cap b0)
                else b0)
      in enc\<lparr>enc_b := Some b1, cancelled := False, enc_w := w\<rparr>)"

definition EncoderConfig_Reset :: "EncoderConfig \<Rightarrow> EncoderConfig" where
  "EncoderConfig_Reset cfg =
     cfg\<lparr>Indent := SPACE_MODE, Logging := True, Round := True, UTCTimestamps := False,
         Pretty := False\<rparr>"

text \<open>
  \<^verbatim>\<open>Encoder.Reset\<close>. The second component is the buffer put back into the pool, if its
  capacity allows it.
\<close>

definition Encoder_Reset :: "Encoder \<Rightarrow> (Encoder \<times> Buffer option) result" where
  "Encoder_Reset enc =
     (let e1 = enc\<lparr>enc_w := None, enc_c := EncoderConfig_Reset (enc_c enc), enc_s := False,
                  enc_d := 0, enc_n := 0, enc_f := 0\<rparr>
      in case enc_b e1 of
           None \<Rightarrow> Inl (NilPointer, e1)
         | Some bb \<Rightarrow>
             (let b1 = Buffer_Reset bb
              in Inr (e1\<lparr>enc_b := None\<rparr>,
                      if Buffer_Cap b1 \<le> MAXBUFSIZE then Some b1 else None)))"

definition Bytes :: "Encoder \<Rightarrow> byte list result" where
  "Bytes enc =
     (case enc_b enc of None \<Rightarrow> Inl (NilPointer, enc) | Some bb \<Rightarrow> Inr (Buffer_Bytes bb))"

definition SetConfig :: "Encoder \<Rightarrow> EncoderConfig \<Rightarrow> Encoder" where
  "SetConfig enc config = enc\<lparr>enc_c := config\<rparr>"

definition Done :: "Encoder \<Rightarrow> bool" where
  "Done enc = cancelled enc"

definition cancel :: "Encoder \<Rightarrow> Encoder" where
  "cancel enc = enc\<lparr>cancelled := True\<rparr>"

subsection \<open>The pretty-print pass\<close>

text \<open>
  The loop of \<^verbatim>\<open>indentNewLine\<close>: a counter from 0 while it is below \<^verbatim>\<open>enc.d*spaces\<close>, one
  tab in mode 1 and one space in every other mode per round.
\<close>

function indent_loop :: "int \<Rightarrow> int \<Rightarrow> int \<Rightarrow> byte list \<Rightarrow> byte list" where
  "indent_loop i hi ind out =
     (if i < hi then indent_loop (i + 1) hi ind (out @ [if ind = 1 then tab else space])
      else out)"
  by pat_completeness auto
termination
  by (relation "measure (\<lambda>(i, hi, ind, out). nat (hi - i))") auto

definition indentNewLine :: "int \<Rightarrow> 64 word \<Rightarrow> byte list \<Rightarrow> byte list" where
  "indentNewLine ind d out =
     (let out1 = out @ [newLine];
          spaces = (if ind \<noteq> 0 then 1 else INDENT)
      in indent_loop 0 (sint (d * spaces)) ind out1)"

text \<open>
  The body of the loop of \<^verbatim>\<open>PrettyPrint\<close> for one byte \<open>c\<close> that passed the loop's exit
  test: from the depth \<^verbatim>\<open>enc.d\<close>, the string flag \<^verbatim>\<open>enc.s\<close> and the scratch buffer to
  their values after the round.
\<close>

definition PrettyPrint_body ::
  "int \<Rightarrow> byte \<Rightarrow> 64 word \<Rightarrow> bool \<Rightarrow> byte list \<Rightarrow> 64 word \<times> bool \<times> byte list" where
  "PrettyPrint_body ind c d s out =
     (let s1 = (if c = quoteMark then \<not> s else s)
      in if s1 then (d, s1, out @ [c])
         else if c = lBrace \<or> c = lBracket
           then (d + 1, s1, indentNewLine ind (d + 1) (out @ [c]))
         else if c = rBrace \<or> c = rBracket
           then (d - 1, s1, indentNewLine ind (d - 1) out @ [c])
         else if c = delim then (d, s1, indentNewLine ind d (out @ [c]))
         else if c = colon then (d, s1, (out @ [c]) @ [space])
         else if c = quoteMark then (d, s1, out @ [c])
         else (d, s1, out @ [c]))"

text \<open>
  The loop over the unread bytes of \<^verbatim>\<open>enc.b\<close>. \<^verbatim>\<open>ReadByte\<close> takes the first unread byte,
  or fails on an empty buffer; the loop breaks on that failure and on a zero byte. The
  result is what is left unread, the depth, the flag and the scratch buffer when the loop
  breaks.
\<close>

fun PrettyPrint_loop ::
  "int \<Rightarrow> byte list \<Rightarrow> 64 word \<Rightarrow> bool \<Rightarrow> byte list \<Rightarrow> byte list \<times> 64 word \<times> bool \<times> byte list"
where
  "PrettyPrint_loop ind [] d s out = ([], d, s, out)"
| "PrettyPrint_loop ind (c # rest) d s out =
     (if c = 0 then (rest, d, s, out)
      else case PrettyPrint_body ind c d s out of
             (d', s', out') \<Rightarrow> PrettyPrint_loop ind rest d' s' out')"

text \<open>
  After the loop: if the scratch buffer holds anything, \<^verbatim>\<open>enc.b\<close> is reset and the scratch
  buffer is written into it. The scratch buffer is a list here: its capacity and its way
  back to the pool leave no trace on the encoder.
\<close>

definition PrettyPrint :: "Encoder \<Rightarrow> Encoder result" where
  "PrettyPrint enc =
     (case enc_b enc of
        None \<Rightarrow> Inl (NilPointer, enc)
      | Some bb \<Rightarrow>
          (case PrettyPrint_loop (Indent (enc_c enc)) (buf bb) (enc_d enc) (enc_s enc) [] of
             (rest, d', s', out) \<Rightarrow>
               (let b1 = bb\<lparr>buf := rest\<rparr>
                in Inr (enc\<lparr>enc_d := d', enc_s := s',
                             enc_b := Some (if length out > 0
                                            then Buffer_Write (Buffer_Reset b1) out
                                            else b1)\<rparr>))))"

subsection \<open>Appending and flushing\<close>

definition Len :: "Encoder \<Rightarrow> nat result" where
  "Len enc =
     (case enc_b enc of None \<Rightarrow> Inl (NilPointer, enc) | Some bb \<Rightarrow> Inr (Buffer_Len bb))"

text \<open>
  The unexported \<^verbatim>\<open>write\<close> (here \<open>enc_write\<close>): nothing on an empty buffer, nothing once cancelled; otherwise the optional
  pretty-print pass, the write to the pipe, a panic when that write returns an error, and
  on success the reset of the buffer and the two counters.
\<close>

definition enc_write :: "Encoder \<Rightarrow> Encoder result" where
  "enc_write enc =
     (case enc_b enc of
        None \<Rightarrow> Inl (NilPointer, enc)
      | Some bb \<Rightarrow>
          if Buffer_Len bb = 0 then Inr enc
          else if Done enc then Inr enc
          else andThen (if Pretty (enc_c enc) then PrettyPrint enc else Inr enc)
            (\<lambda>e1. case enc_b e1 of
                None \<Rightarrow> Inl (NilPointer, e1)
              | Some b1 \<Rightarrow>
                  (case enc_w e1 of
                     None \<Rightarrow> Inl (NilPointer, e1)
                   | Some p \<Rightarrow>
                       (case Pipe_Write p (Buffer_Bytes b1) of
                          (k, err, p') \<Rightarrow>
                            if err then Inl (WriteError, e1\<lparr>enc_w := Some p'\<rparr>)
                            else Inr (e1\<lparr>enc_w := Some p', enc_b := Some (Buffer_Reset b1),
                                         enc_f := enc_f e1 + 1,
                                         enc_n := enc_n e1 + of_nat k\<rparr>)))))"

definition Write :: "Encoder \<Rightarrow> Encoder result" where
  "Write enc = enc_write enc"

definition flush :: "Encoder \<Rightarrow> Encoder result" where
  "flush enc =
     (case Len enc of
        Inl x \<Rightarrow> Inl x
      | Inr k \<Rightarrow> if k \<ge> MAXBUFSIZE then enc_write enc else Inr enc)"

definition AppendByte :: "Encoder \<Rightarrow> byte \<Rightarrow> Encoder result" where
  "AppendByte enc v =
     (if Done enc then Inr enc
      else case enc_b enc of
             None \<Rightarrow> Inl (NilPointer, enc)
           | Some bb \<Rightarrow> Inr (enc\<lparr>enc_b := Some (Buffer_WriteByte bb v)\<rparr>))"

definition AppendBytes :: "Encoder \<Rightarrow> byte list \<Rightarrow> Encoder result" where
  "AppendBytes enc v =
     (if Done enc then Inr enc
      else case enc_b enc of
             None \<Rightarrow> Inl (NilPointer, enc)
           | Some bb \<Rightarrow> flush (enc\<lparr>enc_b := Some (Buffer_Write bb v)\<rparr>))"

definition EncodeKey :: "Encoder \<Rightarrow> byte list \<Rightarrow> Encoder result" where
  "EncodeKey enc v =
     andThen (AppendByte enc quoteMark) (\<lambda>e1.
     andThen (AppendBytes e1 v) (\<lambda>e2.
     AppendByte e2 quoteMark))"

definition ObjectKey :: "Encoder \<Rightarrow> byte list \<Rightarrow> Encoder result" where
  "ObjectKey enc v = andThen (EncodeKey enc v) (\<lambda>e1. AppendByte e1 colon)"

definition ObjectStart :: "Encoder \<Rightarrow> Encoder result" where
  "ObjectStart enc = AppendByte enc lBrace"

definition ObjectEnd :: "Encoder \<Rightarrow> Encoder result" where
  "ObjectEnd enc = AppendByte enc rBrace"

definition ArrayStart :: "Encoder \<Rightarrow> Encoder result" where
  "ArrayStart enc = AppendByte enc lBracket"

definition ArrayEnd :: "Encoder \<Rightarrow> Encoder result" where
  "ArrayEnd enc = AppendByte enc rBracket"

definition Delim :: "Encoder \<Rightarrow> Encoder result" where
  "Delim enc = AppendByte enc delim"

subsection \<open>Memory: slices, scratch buffers and bufPool\<close>

text \<open>
  \<^verbatim>\<open>Escape\<close> and the writers of keyed values take a \<^verbatim>\<open>*bytes.Buffer\<close> from \<^verbatim>\<open>bufPool\<close>, and
  \<^verbatim>\<open>Escape\<close> returns a slice of the buffer that it has put back. What such a slice holds
  depends on who writes to the array behind it, so for these functions a byte slice is not
  a list but a view into a memory of arrays. A slice names an array, an offset and a
  length; its capacity reaches to the end of the array. A scratch buffer names its array
  and its length; its read offset stays 0, since nothing is read from a scratch buffer.
  The memory holds the arrays (the length of an entry is the capacity of the array) and
  the buffers that are in \<^verbatim>\<open>bufPool\<close>. A slice or a buffer of a Go program always names an
  array of the memory.

  The capacity of a new array is not fixed by the language: the fields \<open>append_cap\<close> (for
  \<^verbatim>\<open>append\<close>) and \<open>grow_cap\<close> (for \<^verbatim>\<open>bytes.Buffer\<close>) give it from the old capacity and the
  length needed, and it is never less than the length needed. A buffer without an array
  gets \<^verbatim>\<open>smallBufferSize\<close> bytes when that is enough, as \<^verbatim>\<open>bytes.Buffer\<close> does.

  \<^verbatim>\<open>sync.Pool\<close> hands out any buffer it holds, or a new one: the choice is the argument
  \<open>pick\<close> of \<open>pool_Get\<close>, an index into the pool, and a new buffer when it is out of range.
  The buffer that an encoder holds between \<^verbatim>\<open>GetEncoder\<close> and \<^verbatim>\<open>Release\<close> is out of the pool
  for that time: it stays the value of the field \<open>enc_b\<close>, and an append copies the bytes
  it is given into it.
\<close>

definition smallBufferSize :: nat where "smallBufferSize = 64"

record slice =
  s_arr :: nat
  s_off :: nat
  s_len :: nat

record SBuf =
  sb_arr :: nat
  sb_len :: nat

record Mem =
  arrays :: "byte list list"
  bufPool :: "SBuf list"
  append_cap :: "nat \<Rightarrow> nat \<Rightarrow> nat"
  grow_cap :: "nat \<Rightarrow> nat \<Rightarrow> nat"

definition slice_read :: "Mem \<Rightarrow> slice \<Rightarrow> byte list" where
  "slice_read m s = take (s_len s) (drop (s_off s) (arrays m ! s_arr s))"

text \<open>
  \<^verbatim>\<open>append(s, xs...)\<close>: in place when the capacity of the slice suffices, which overwrites
  what the array held there; otherwise into a new array, which leaves the old one as it is.
\<close>

definition slice_append :: "Mem \<Rightarrow> slice \<Rightarrow> byte list \<Rightarrow> Mem \<times> slice" where
  "slice_append m s xs =
     (let a = arrays m ! s_arr s; e = s_off s + s_len s; n = length xs
      in if e + n \<le> length a
         then (m\<lparr>arrays := (arrays m)[s_arr s := take e a @ xs @ drop (e + n) a]\<rparr>,
               s\<lparr>s_len := s_len s + n\<rparr>)
         else (let c = max (append_cap m (length a - s_off s) (s_len s + n)) (s_len s + n)
               in (m\<lparr>arrays := arrays m @ [slice_read m s @ xs @ replicate (c - (s_len s + n)) 0]\<rparr>,
                   \<lparr>s_arr = length (arrays m), s_off = 0, s_len = s_len s + n\<rparr>)))"

text \<open>
  \<^verbatim>\<open>Buffer.Reset\<close>, \<^verbatim>\<open>Buffer.Bytes\<close>, \<^verbatim>\<open>Buffer.Write\<close> and \<^verbatim>\<open>Buffer.WriteByte\<close> of a scratch
  buffer. A write is in place when the array has room; otherwise the content moves to a
  new array and the old one stays as it is.
\<close>

definition Buf_Reset :: "SBuf \<Rightarrow> SBuf" where
  "Buf_Reset b = b\<lparr>sb_len := 0\<rparr>"

definition Buf_Bytes :: "SBuf \<Rightarrow> slice" where
  "Buf_Bytes b = \<lparr>s_arr = sb_arr b, s_off = 0, s_len = sb_len b\<rparr>"

definition Buf_Write :: "Mem \<Rightarrow> SBuf \<Rightarrow> byte list \<Rightarrow> Mem \<times> SBuf" where
  "Buf_Write m b p =
     (let a = arrays m ! sb_arr b; l = sb_len b; n = length p
      in if l + n \<le> length a
         then (m\<lparr>arrays := (arrays m)[sb_arr b := take l a @ p @ drop (l + n) a]\<rparr>,
               b\<lparr>sb_len := l + n\<rparr>)
         else (let c = (if length a = 0 \<and> n \<le> smallBufferSize then smallBufferSize
                        else max (grow_cap m (length a) (l + n)) (l + n))
               in (m\<lparr>arrays := arrays m @ [take l a @ p @ replicate (c - (l + n)) 0]\<rparr>,
                   \<lparr>sb_arr = length (arrays m), sb_len = l + n\<rparr>)))"

definition Buf_WriteByte :: "Mem \<Rightarrow> SBuf \<Rightarrow> byte \<Rightarrow> Mem \<times> SBuf" where
  "Buf_WriteByte m b c = Buf_Write m b [c]"

text \<open>\<^verbatim>\<open>bufPool.Get()\<close> and \<^verbatim>\<open>bufPool.Put(b)\<close>.\<close>

definition pool_Get :: "Mem \<Rightarrow> nat \<Rightarrow> Mem \<times> SBuf" where
  "pool_Get m pick =
     (if pick < length (bufPool m)
      then (m\<lparr>bufPool := take pick (bufPool m) @ drop (Suc pick) (bufPool m)\<rparr>,
            bufPool m ! pick)
      else (m\<lparr>arrays := arrays m @ [[]]\<rparr>, \<lparr>sb_arr = length (arrays m), sb_len = 0\<rparr>))"

definition pool_Put :: "Mem \<Rightarrow> SBuf \<Rightarrow> Mem" where
  "pool_Put m b = m\<lparr>bufPool := b # bufPool m\<rparr>"

subsection \<open>Escape\<close>

text \<open>
  \<^verbatim>\<open>Escape\<close>: the buffer comes from the pool and is reset. The loop runs over the indices of
  \<open>value\<close>, whose length is fixed when the loop starts; it reads the byte at index \<open>i\<close> from
  the memory as it is when its turn comes, and writes into the buffer. The result is
  \<^verbatim>\<open>buf.Bytes()\<close>, taken before the deferred function resets the buffer and puts it back.
  The receiver is not used by the method.
\<close>

fun Escape_loop :: "Mem \<Rightarrow> SBuf \<Rightarrow> slice \<Rightarrow> nat \<Rightarrow> nat \<Rightarrow> Mem \<times> SBuf" where
  "Escape_loop m b v i 0 = (m, b)"
| "Escape_loop m b v i (Suc k) =
     (let c = slice_read m v ! i
      in case (if c = newLine then Buf_WriteByte m b space
               else if c = backslash
                    then (case Buf_WriteByte m b backslash of
                            (m1, b1) \<Rightarrow> Buf_WriteByte m1 b1 backslash)
                    else Buf_WriteByte m b c) of
           (m', b') \<Rightarrow> Escape_loop m' b' v (Suc i) k)"

definition Escape :: "Mem \<Rightarrow> nat \<Rightarrow> slice \<Rightarrow> slice \<times> Mem" where
  "Escape m pick v =
     (case pool_Get m pick of (m0, b0) \<Rightarrow>
      case Escape_loop m0 (Buf_Reset b0) v 0 (s_len v) of (m1, b1) \<Rightarrow>
        (Buf_Bytes b1, pool_Put m1 (Buf_Reset b1)))"

text \<open>
  The same in the words of the specification, on the bytes of a slice: every backslash
  becomes two, every newline a space, every other byte itself, in order.
\<close>

definition escape_spec :: "byte list \<Rightarrow> byte list" where
  "escape_spec v =
     concat (map (\<lambda>c. if c = backslash then [backslash, backslash]
                       else if c = newLine then [space] else [c]) v)"

subsection \<open>Keyed unsigned integers\<close>

text \<open>
  \<^verbatim>\<open>strconv.AppendUint(dst, value, 10)\<close> of the standard library appends the decimal digits
  of \<open>value\<close>, most significant first, with no sign and no leading zero, with one \<^verbatim>\<open>append\<close>.
\<close>

function decimal :: "nat \<Rightarrow> byte list" where
  "decimal k = (if k < 10 then [of_nat (48 + k)]
                else decimal (k div 10) @ [of_nat (48 + k mod 10)])"
  by pat_completeness auto
termination
  by (relation "measure (\<lambda>k. k)") auto

definition AppendUint :: "Mem \<Rightarrow> slice \<Rightarrow> 64 word \<Rightarrow> Mem \<times> slice" where
  "AppendUint m dst v = slice_append m dst (decimal (unat v))"

text \<open>
  \<^verbatim>\<open>writeUint64Key\<close>: the digits are appended to the bytes of a scratch buffer of the pool
  and written to that buffer. The key is read from the memory when \<^verbatim>\<open>ObjectKey\<close> appends
  it, which is after the digits went into the scratch buffer. The deferred \<^verbatim>\<open>Put\<close> also
  runs when an append panics, and then the buffer goes back without the \<^verbatim>\<open>Reset\<close>. The
  result is the encoder or the panic, and the memory.
\<close>

definition writeUint64Key ::
  "Mem \<Rightarrow> nat \<Rightarrow> Encoder \<Rightarrow> slice \<Rightarrow> 64 word \<Rightarrow> bool \<Rightarrow> bool \<Rightarrow> Encoder result \<times> Mem" where
  "writeUint64Key m pick enc key v dl encode =
     (case pool_Get m pick of (m0, b0) \<Rightarrow>
      case AppendUint m0 (Buf_Bytes (Buf_Reset b0)) v of (m1, p) \<Rightarrow>
      case Buf_Write m1 (Buf_Reset b0) (slice_read m1 p) of (m2, b2) \<Rightarrow>
      case andThen (ObjectKey enc (slice_read m2 key)) (\<lambda>e1.
             if encode then EncodeKey e1 (slice_read m2 (Buf_Bytes b2))
             else AppendBytes e1 (slice_read m2 (Buf_Bytes b2))) of
        Inl x \<Rightarrow> (Inl x, pool_Put m2 b2)
      | Inr e2 \<Rightarrow> (if dl then Delim e2 else Inr e2, pool_Put m2 (Buf_Reset b2)))"

definition WriteUint64Key ::
  "Mem \<Rightarrow> nat \<Rightarrow> Encoder \<Rightarrow> slice \<Rightarrow> 64 word \<Rightarrow> bool \<Rightarrow> Encoder result \<times> Mem" where
  "WriteUint64Key m pick enc key v append_delim =
     writeUint64Key m pick enc key v append_delim False"

definition WriteEncodedUint64Key ::
  "Mem \<Rightarrow> nat \<Rightarrow> Encoder \<Rightarrow> slice \<Rightarrow> 64 word \<Rightarrow> bool \<Rightarrow> Encoder result \<times> Mem" where
  "WriteEncodedUint64Key m pick enc key v append_delim =
     writeUint64Key m pick enc key v append_delim True"

definition WriteUint32Key ::
  "Mem \<Rightarrow> nat \<Rightarrow> Encoder \<Rightarrow> slice \<Rightarrow> 32 word \<Rightarrow> bool \<Rightarrow> Encoder result \<times> Mem" where
  "WriteUint32Key m pick enc key v append_delim =
     WriteUint64Key m pick enc key (ucast v) append_delim"

definition WriteEncodedUint32Key ::
  "Mem \<Rightarrow> nat \<Rightarrow> Encoder \<Rightarrow> slice \<Rightarrow> 32 word \<Rightarrow> bool \<Rightarrow> Encoder result \<times> Mem" where
  "WriteEncodedUint32Key m pick enc key v append_delim =
     WriteEncodedUint64Key m pick enc key (ucast v) append_delim"

subsection \<open>Close and Release\<close>

definition Close :: "Encoder \<Rightarrow> Encoder result" where
  "Close enc =
     andThen (Write enc) (\<lambda>e1.
       let e2 = cancel e1
       in case enc_w e2 of
            None \<Rightarrow> Inl (NilPointer, e2)
          | Some p \<Rightarrow> Inr (e2\<lparr>enc_w := Some (Pipe_Close p)\<rparr>))"

text \<open>
  What \<^verbatim>\<open>Release\<close> leaves behind besides its three return values: the encoder as
  \<^verbatim>\<open>Reset\<close> left it, the pipe it pointed to (the reader still holds the other end), and
  the buffer that went back to the pool.
\<close>

record Released =
  rel_enc :: Encoder
  rel_sink :: "Pipe option"
  rel_pool :: "Buffer option"

text \<open>
  \<^verbatim>\<open>Release\<close>, where \<open>r\<close> is what \<^verbatim>\<open>recover()\<close> returns: the panic that is unwinding the
  function that deferred \<^verbatim>\<open>Release\<close>, or nothing. A panic inside \<^verbatim>\<open>Release\<close> itself
  (closing a nil pipe) is not recovered.
\<close>

definition Release ::
  "Encoder \<Rightarrow> panic option \<Rightarrow> ((64 word \<times> 64 word \<times> nat) \<times> Released) result" where
  "Release enc r =
     andThen
       (case r of
          None \<Rightarrow> Inr enc
        | Some pv \<Rightarrow>
            (let e1 = cancel enc
             in case enc_w e1 of
                  None \<Rightarrow> Inl (NilPointer, e1)
                | Some p \<Rightarrow> Inr (e1\<lparr>enc_w := Some (Pipe_Close p)\<rparr>)))
       (\<lambda>e2. case enc_b e2 of
           None \<Rightarrow> Inl (NilPointer, e2)
         | Some bb \<Rightarrow>
             (let cp = Buffer_Cap bb; n = enc_n e2; f = enc_f e2
              in case Encoder_Reset e2 of
                   Inl x \<Rightarrow> Inl x
                 | Inr (e3, pooled) \<Rightarrow>
                     Inr ((f, n, cp), \<lparr>rel_enc = e3, rel_sink = enc_w e2, rel_pool = pooled\<rparr>)))"

text \<open>
  \<^verbatim>\<open>defer enc.Release()\<close> around a function body: the body runs, and \<^verbatim>\<open>Release\<close> runs
  with the body's panic, if any.
\<close>

definition deferred_Release ::
  "(Encoder \<Rightarrow> Encoder result) \<Rightarrow> Encoder \<Rightarrow> ((64 word \<times> 64 word \<times> nat) \<times> Released) result"
where
  "deferred_Release body enc =
     (case body enc of
        Inl (pv, e) \<Rightarrow> Release e (Some pv)
      | Inr e \<Rightarrow> Release e None)"

subsection \<open>Sequences of calls\<close>

text \<open>
  What the owner of an acquired encoder can call between \<^verbatim>\<open>GetEncoder\<close> and \<^verbatim>\<open>Release\<close>,
  and the two events of its surroundings: the reader closing its end of the pipe, and the
  watcher of \<^verbatim>\<open>WithTimeout\<close> firing between two calls (it counts the timeout, cancels, and
  closes the pipe, recovering from the panic of a nil pipe).
\<close>

datatype op =
    OpAppendByte byte
  | OpAppendBytes "byte list"
  | OpWrite
  | OpClose
  | OpPrettyPrint
  | OpSetConfig EncoderConfig
  | EvReaderClose
  | EvTimeout

definition reader_close :: "Encoder \<Rightarrow> Encoder" where
  "reader_close enc =
     (case enc_w enc of None \<Rightarrow> enc | Some p \<Rightarrow> enc\<lparr>enc_w := Some (Pipe_CloseReader p)\<rparr>)"

definition timeout_fires :: "Encoder \<Rightarrow> Encoder" where
  "timeout_fires enc =
     (let e1 = cancel (enc\<lparr>encoderTimeoutsCounter := encoderTimeoutsCounter enc + 1\<rparr>)
      in case enc_w e1 of
           None \<Rightarrow> e1\<lparr>recoveredPanicsCounter := recoveredPanicsCounter e1 + 1\<rparr>
         | Some p \<Rightarrow> e1\<lparr>enc_w := Some (Pipe_Close p)\<rparr>)"

fun step :: "Encoder \<Rightarrow> op \<Rightarrow> Encoder result" where
  "step enc (OpAppendByte v) = AppendByte enc v"
| "step enc (OpAppendBytes v) = AppendBytes enc v"
| "step enc OpWrite = Write enc"
| "step enc OpClose = Close enc"
| "step enc OpPrettyPrint = PrettyPrint enc"
| "step enc (OpSetConfig cfg) = Inr (SetConfig enc cfg)"
| "step enc EvReaderClose = Inr (reader_close enc)"
| "step enc EvTimeout = Inr (timeout_fires enc)"

fun run :: "Encoder \<Rightarrow> op list \<Rightarrow> Encoder result" where
  "run enc [] = Inr enc"
| "run enc (x # xs) = andThen (step enc x) (\<lambda>e. run e xs)"



text \<open>The pending bytes of an encoder, and the bytes its pipe has delivered.\<close>

definition pending :: "Encoder \<Rightarrow> byte list" where
  "pending enc = (case enc_b enc of None \<Rightarrow> [] | Some bb \<Rightarrow> Buffer_Bytes bb)"

definition delivered :: "Encoder \<Rightarrow> byte list list" where
  "delivered enc = (case enc_w enc of None \<Rightarrow> [] | Some p \<Rightarrow> received p)"

subsection \<open>Readings and invariants for the statements\<close>

text \<open>The output stream: the bytes delivered, followed by the bytes pending.\<close>

definition stream :: "Encoder \<Rightarrow> byte list" where
  "stream enc = concat (delivered enc) @ pending enc"


text \<open>
  What a caller and the reader can see of a result: the panic, or the pending bytes and the
  slices delivered; and of the result of \<^verbatim>\<open>Release\<close>: the panic, or the three return
  values, whether the context is cancelled, and the pipe.
\<close>

definition observe :: "Encoder result \<Rightarrow> panic + (byte list \<times> byte list list)" where
  "observe r = (case r of Inl (pv, e) \<Rightarrow> Inl pv | Inr e \<Rightarrow> Inr (pending e, delivered e))"

definition released_view ::
  "((64 word \<times> 64 word \<times> nat) \<times> Released) result
   \<Rightarrow> panic + (64 word \<times> 64 word \<times> nat \<times> bool \<times> Pipe option)" where
  "released_view r =
     (case r of
        Inl (pv, e) \<Rightarrow> Inl pv
      | Inr ((f, n, cp), res) \<Rightarrow> Inr (f, n, cp, cancelled (rel_enc res), rel_sink res))"

text \<open>
  An encoder that can deliver what it is given as it is: not cancelled, holding a buffer,
  pretty-print off, attached to a pipe that is open at both ends.
\<close>

definition open_plain :: "Encoder \<Rightarrow> bool" where
  "open_plain enc =
     (\<not> cancelled enc \<and> enc_b enc \<noteq> None \<and> \<not> Pretty (enc_c enc) \<and>
      (case enc_w enc of None \<Rightarrow> False | Some p \<Rightarrow> \<not> rclosed p \<and> \<not> wclosed p))"

text \<open>
  The invariant behind the counters: since the encoder had the counters \<open>f0\<close> and \<open>n0\<close> and
  its pipe had delivered \<open>rs0\<close>, the pipe has delivered the slices \<open>ws\<close> more, and the
  counters have grown by their number and by their total length.
\<close>

definition counted :: "64 word \<Rightarrow> 64 word \<Rightarrow> byte list list \<Rightarrow> Encoder \<Rightarrow> bool" where
  "counted f0 n0 rs0 e =
     (enc_b e \<noteq> None \<and>
      (\<exists>p ws. enc_w e = Some p \<and> received p = rs0 @ ws \<and>
               enc_f e = f0 + of_nat (length ws) \<and>
               enc_n e = n0 + of_nat (length (concat ws))))"

text \<open>
  An indent of \<open>d\<close> levels in the words of the specification: four spaces per level in the
  space mode, one tab per level in the tab mode. (Any other mode gives one space per level,
  and the product is computed in 64 bits, as the code does.)
\<close>

definition indent :: "int \<Rightarrow> 64 word \<Rightarrow> byte list" where
  "indent ind d =
     replicate (nat (sint (d * (if ind \<noteq> 0 then 1 else INDENT))))
       (if ind = 1 then tab else space)"

text \<open>
  The round for a closing bracket as the specification words it: a newline and an indent of
  the current depth first, then the decrement, then the character.
\<close>

definition spec_close :: "int \<Rightarrow> byte \<Rightarrow> 64 word \<Rightarrow> byte list \<Rightarrow> 64 word \<times> byte list" where
  "spec_close ind c d out = (d - 1, (out @ [newLine] @ indent ind d) @ [c])"

text \<open>The number that a string of decimal digits denotes.\<close>

definition decimal_value :: "byte list \<Rightarrow> nat" where
  "decimal_value ds = foldl (\<lambda>a c. 10 * a + (unat c - 48)) 0 ds"

text \<open>
  A slice that lies within an array of the memory, a buffer that does, and a slice that a
  caller may rely on: it lies within an array that no buffer of the pool uses (and the
  buffers of the pool lie within their arrays).
\<close>

definition valid :: "Mem \<Rightarrow> slice \<Rightarrow> bool" where
  "valid m s = (s_arr s < length (arrays m) \<and> s_off s + s_len s \<le> length (arrays m ! s_arr s))"

definition buf_ok :: "Mem \<Rightarrow> SBuf \<Rightarrow> bool" where
  "buf_ok m b = (sb_arr b < length (arrays m) \<and> sb_len b \<le> length (arrays m ! sb_arr b))"

definition apart :: "Mem \<Rightarrow> slice \<Rightarrow> bool" where
  "apart m s = (valid m s \<and> list_all (\<lambda>b. buf_ok m b \<and> sb_arr b \<noteq> s_arr s) (bufPool m))"

text \<open>
  The scratch buffer of a writer after a text went through it, with the memory; and the
  appends that \<^verbatim>\<open>writeUint64Key\<close> and \<^verbatim>\<open>WriteUint32Timestamp\<close> make, given the bytes that the
  key and the scratch buffer hold at that point.
\<close>

definition scratch :: "Mem \<Rightarrow> nat \<Rightarrow> byte list \<Rightarrow> Mem \<times> SBuf" where
  "scratch m pick xs =
     (case pool_Get m pick of (m0, b0) \<Rightarrow>
      case slice_append m0 (Buf_Bytes (Buf_Reset b0)) xs of (m1, p) \<Rightarrow>
        Buf_Write m1 (Buf_Reset b0) (slice_read m1 p))"

definition keyed :: "Encoder \<Rightarrow> byte list \<Rightarrow> byte list \<Rightarrow> bool \<Rightarrow> bool \<Rightarrow> Encoder result" where
  "keyed enc key digits dl encode =
     andThen (ObjectKey enc key) (\<lambda>e1.
     andThen (if encode then EncodeKey e1 digits else AppendBytes e1 digits) (\<lambda>e2.
     if dl then Delim e2 else Inr e2))"

definition stamped :: "Encoder \<Rightarrow> byte list \<Rightarrow> byte list \<Rightarrow> bool \<Rightarrow> Encoder result" where
  "stamped enc key stamp dl =
     andThen (ObjectKey enc key) (\<lambda>e1.
     andThen (AppendByte e1 quoteMark) (\<lambda>e2.
     andThen (AppendBytes e2 stamp) (\<lambda>e3.
     andThen (AppendByte e3 quoteMark) (\<lambda>e4.
     if dl then Delim e4 else Inr e4))))"

subsection \<open>Keyed timestamps\<close>

text \<open>
  Modelled from the spec: Go's \<^verbatim>\<open>time\<close> package (\<^verbatim>\<open>time.Unix\<close>, \<^verbatim>\<open>Time.UTC\<close>,
  \<^verbatim>\<open>Time.AppendFormat\<close>) is not part of the repository. The calendar fields of an instant,
  in UTC or in the host's local zone, are a parameter (\<open>clock\<close> below, from the UTC flag and
  the unix seconds). \<^verbatim>\<open>AppendFormat\<close> is modelled for the layout elements that the two
  layouts of the repository contain: \<^verbatim>\<open>2006\<close> is the year in four digits, \<^verbatim>\<open>01\<close>, \<^verbatim>\<open>02\<close>,
  \<^verbatim>\<open>15\<close>, \<^verbatim>\<open>04\<close> and \<^verbatim>\<open>05\<close> are month, day, hour, minute and second in two digits, padded
  with zeros, and every other character of these two layouts stands for itself. (Go reads
  further elements, such as a digit on its own or a zone after \<^verbatim>\<open>-\<close> or \<^verbatim>\<open>Z\<close>; the two layouts
  contain none of them, and a layout that does is outside this model.)
\<close>

record civil =
  c_year :: nat
  c_month :: nat
  c_day :: nat
  c_hour :: nat
  c_minute :: nat
  c_second :: nat

datatype chunk =
    Lit char
  | stdLongYear
  | stdZeroMonth
  | stdZeroDay
  | stdHour
  | stdZeroMinute
  | stdZeroSecond

function layout_chunks :: "string \<Rightarrow> chunk list" where
  "layout_chunks l =
     (if l = [] then []
      else if take 4 l = ''2006'' then stdLongYear # layout_chunks (drop 4 l)
      else if take 2 l = ''01'' then stdZeroMonth # layout_chunks (drop 2 l)
      else if take 2 l = ''02'' then stdZeroDay # layout_chunks (drop 2 l)
      else if take 2 l = ''15'' then stdHour # layout_chunks (drop 2 l)
      else if take 2 l = ''04'' then stdZeroMinute # layout_chunks (drop 2 l)
      else if take 2 l = ''05'' then stdZeroSecond # layout_chunks (drop 2 l)
      else Lit (hd l) # layout_chunks (tl l))"
  by pat_completeness auto
termination
  by (relation "measure length") (auto simp: neq_Nil_conv)

definition appendInt :: "nat \<Rightarrow> nat \<Rightarrow> byte list" where
  "appendInt x width = replicate (width - length (decimal x)) 48 @ decimal x"

fun format_chunk :: "civil \<Rightarrow> chunk \<Rightarrow> byte list" where
  "format_chunk cv (Lit ch) = [of_nat (of_char ch)]"
| "format_chunk cv stdLongYear = appendInt (c_year cv) 4"
| "format_chunk cv stdZeroMonth = appendInt (c_month cv) 2"
| "format_chunk cv stdZeroDay = appendInt (c_day cv) 2"
| "format_chunk cv stdHour = appendInt (c_hour cv) 2"
| "format_chunk cv stdZeroMinute = appendInt (c_minute cv) 2"
| "format_chunk cv stdZeroSecond = appendInt (c_second cv) 2"

definition AppendFormat :: "civil \<Rightarrow> string \<Rightarrow> byte list" where
  "AppendFormat cv layout = concat (map (format_chunk cv) (layout_chunks layout))"

definition ISO8601 :: string where "ISO8601 = ''2006-01-02T15:04:05''"
definition ISO8601u :: string where "ISO8601u = ''2006-01-02T15:04:05+00''"

text \<open>
  \<^verbatim>\<open>WriteUint32Timestamp\<close>, from the source: the text is appended to the bytes of a scratch
  buffer of the pool and written to that buffer; then key, quote, text, quote and the
  optional delimiter are appended, the key and the text as the memory holds them at that
  point. \<^verbatim>\<open>AppendFormat\<close> adds its text to the slice with \<^verbatim>\<open>append\<close>; the text is taken as
  one append here.
\<close>

definition WriteUint32Timestamp ::
  "(bool \<Rightarrow> 64 word \<Rightarrow> civil) \<Rightarrow> Mem \<Rightarrow> nat \<Rightarrow> Encoder \<Rightarrow> slice \<Rightarrow> 32 word \<Rightarrow> bool
   \<Rightarrow> Encoder result \<times> Mem"
where
  "WriteUint32Timestamp clock m pick enc key v append_delim =
     (case pool_Get m pick of (m0, b0) \<Rightarrow>
      case (if UTCTimestamps (enc_c enc)
            then slice_append m0 (Buf_Bytes (Buf_Reset b0))
                   (AppendFormat (clock True (ucast v)) ISO8601u)
            else slice_append m0 (Buf_Bytes (Buf_Reset b0))
                   (AppendFormat (clock False (ucast v)) ISO8601)) of
        (m1, p) \<Rightarrow>
      case Buf_Write m1 (Buf_Reset b0) (slice_read m1 p) of (m2, b2) \<Rightarrow>
      case andThen (ObjectKey enc (slice_read m2 key)) (\<lambda>e1.
           andThen (AppendByte e1 quoteMark) (\<lambda>e2.
           andThen (AppendBytes e2 (slice_read m2 (Buf_Bytes b2))) (\<lambda>e3.
           AppendByte e3 quoteMark))) of
        Inl x \<Rightarrow> (Inl x, pool_Put m2 b2)
      | Inr e4 \<Rightarrow> (if append_delim then Delim e4 else Inr e4, pool_Put m2 (Buf_Reset b2)))"

text \<open>
  The pattern \<^verbatim>\<open>YYYY-MM-DDTHH:MM:SS\<close> of the specification, and the fields of a calendar
  date and time of day.
\<close>

definition iso8601_text :: "civil \<Rightarrow> byte list" where
  "iso8601_text cv =
     appendInt (c_year cv) 4 @ bytes_of ''-'' @ appendInt (c_month cv) 2 @ bytes_of ''-''
     @ appendInt (c_day cv) 2 @ bytes_of ''T'' @ appendInt (c_hour cv) 2 @ bytes_of '':''
     @ appendInt (c_minute cv) 2 @ bytes_of '':'' @ appendInt (c_second cv) 2"

definition civil_ok :: "civil \<Rightarrow> bool" where
  "civil_ok cv =
     (c_year cv < 10000 \<and> 1 \<le> c_month cv \<and> c_month cv \<le> 12 \<and> 1 \<le> c_day cv \<and>
      c_day cv \<le> 31 \<and> c_hour cv < 24 \<and> c_minute cv < 60 \<and> c_second cv < 60)"

subsection \<open>Rounding floats\<close>















subsection \<open>Values for the examples\<close>

text \<open>
  A fresh pool buffer, a fresh pipe, and the encoder that \<^verbatim>\<open>GetEncoder\<close> makes of them, as
  the tests set it up; the same encoder after one byte was appended, the reader closed its
  end and the context was cancelled; a clock that reads the instant 0 in UTC and one hour
  east of it.
\<close>

definition ex_buffer :: Buffer where
  "ex_buffer = \<lparr>buf = [], cap = 0, alloc = (\<lambda>c l k. max c (l + k))\<rparr>"

definition ex_pipe :: Pipe where
  "ex_pipe = \<lparr>received = [], rclosed = False, wclosed = False\<rparr>"

definition ex_enc :: Encoder where
  "ex_enc = GetEncoder NewEncoder ex_buffer (Some ex_pipe)"

definition ex_cancelled :: Encoder where
  "ex_cancelled =
     (case AppendByte ex_enc 1 of
        Inl x \<Rightarrow> ex_enc
      | Inr e \<Rightarrow> cancel (reader_close e))"

definition ex_clock :: "bool \<Rightarrow> 64 word \<Rightarrow> civil" where
  "ex_clock utc t =
     \<lparr>c_year = 1970, c_month = 1, c_day = 1, c_hour = (if utc then 0 else 1), c_minute = 0,
      c_second = 0\<rparr>"

text \<open>
  A memory with an empty pool that holds three arrays of a caller (a backslash and an
  \<^verbatim>\<open>x\<close>; the key of the tests; the key of the timestamp tests) and the slices over them;
  the same memory after a first call of \<^verbatim>\<open>Escape\<close>, whose buffer is then in the pool, and
  the slice which that call returned; a memory with a key of 4095 bytes.
\<close>

definition ex_mem :: Mem where
  "ex_mem = \<lparr>arrays = [], bufPool = [], append_cap = (\<lambda>c n. 2 * c + n),
             grow_cap = (\<lambda>c n. 2 * c + n)\<rparr>"

definition ex_heap :: Mem where
  "ex_heap =
     ex_mem\<lparr>arrays := [[backslash, 120], bytes_of ''/foo/bar'', bytes_of ''timestamp'']\<rparr>"

definition ex_bs :: slice where "ex_bs = \<lparr>s_arr = 0, s_off = 0, s_len = 2\<rparr>"
definition ex_key :: slice where "ex_key = \<lparr>s_arr = 1, s_off = 0, s_len = 8\<rparr>"
definition ex_ts :: slice where "ex_ts = \<lparr>s_arr = 2, s_off = 0, s_len = 9\<rparr>"

definition ex_pool :: Mem where
  "ex_pool = snd (Escape ex_heap 0 ex_bs)"

definition ex_escaped :: slice where
  "ex_escaped = fst (Escape ex_heap 0 ex_bs)"

definition ex_long :: Mem where
  "ex_long = ex_mem\<lparr>arrays := [replicate 4095 97]\<rparr>"



section \<open>Properties\<close>

lemmas byte_defs = quoteMark_def delim_def colon_def lBrace_def rBrace_def lBracket_def
  rBracket_def newLine_def space_def tab_def backslash_def

declare indent_loop.simps [simp del]
declare decimal.simps [simp del]
declare layout_chunks.simps [simp del]

lemma ex_enc_simps:
  "enc_b ex_enc = Some (ex_buffer\<lparr>cap := 4096\<rparr>)" "enc_w ex_enc = Some ex_pipe"
  "\<not> cancelled ex_enc" "enc_f ex_enc = 0" "enc_n ex_enc = 0" "\<not> Pretty (enc_c ex_enc)"
  "\<not> UTCTimestamps (enc_c ex_enc)"
  by (simp_all add: ex_enc_def GetEncoder_def NewEncoder_def ex_buffer_def Buffer_Reset_def
      Buffer_Cap_def Buffer_Grow_def MAXBUFSIZE_def Let_def)

lemma buf_Buffer_Write: "buf (Buffer_Write bb v) = buf bb @ v"
  by (simp add: Buffer_Write_def)

lemma AppendByte_live:
  "\<not> cancelled enc \<Longrightarrow> enc_b enc \<noteq> None \<Longrightarrow>
   AppendByte enc v = Inr (enc\<lparr>enc_b := Some (Buffer_Write (the (enc_b enc)) [v])\<rparr>)"
  by (auto simp: AppendByte_def Done_def Buffer_WriteByte_def)

lemma AppendBytes_below:
  "\<not> cancelled enc \<Longrightarrow> enc_b enc \<noteq> None \<Longrightarrow>
   length (buf (the (enc_b enc))) + length v < MAXBUFSIZE \<Longrightarrow>
   AppendBytes enc v = Inr (enc\<lparr>enc_b := Some (Buffer_Write (the (enc_b enc)) v)\<rparr>)"
  by (auto simp: AppendBytes_def Done_def flush_def Len_def Buffer_Len_def Buffer_Write_def)

subsection \<open>Slices, scratch buffers and Escape\<close>

text \<open>
  A write to a scratch buffer that lies within its array extends what the buffer holds by
  the bytes written, keeps the pool, and leaves every other array of the memory as it is,
  whether it happens in place or moves the buffer to a new array; and so does \<^verbatim>\<open>append\<close>.
\<close>

lemma Buf_Write_props:
  assumes "buf_ok m b" and "Buf_Write m b p = (m', b')"
  shows "buf_ok m' b'"
    and "slice_read m' (Buf_Bytes b') = slice_read m (Buf_Bytes b) @ p"
    and "bufPool m' = bufPool m"
    and "length (arrays m) \<le> length (arrays m')"
    and "sb_arr b' = sb_arr b \<or> length (arrays m) \<le> sb_arr b'"
    and "\<And>a. a < length (arrays m) \<Longrightarrow> a \<noteq> sb_arr b \<Longrightarrow> arrays m' ! a = arrays m ! a"
  using assms
  by (auto simp: buf_ok_def Buf_Write_def Let_def slice_read_def Buf_Bytes_def nth_append
      split: if_splits)

lemma slice_append_props:
  assumes "valid m s" and "slice_append m s xs = (m', s')"
  shows "valid m' s'"
    and "slice_read m' s' = slice_read m s @ xs"
    and "bufPool m' = bufPool m"
    and "length (arrays m) \<le> length (arrays m')"
    and "s_arr s' = s_arr s \<or> length (arrays m) \<le> s_arr s'"
    and "\<And>a. a < length (arrays m) \<Longrightarrow> a \<noteq> s_arr s \<Longrightarrow> arrays m' ! a = arrays m ! a"
  using assms
  by (auto simp: valid_def slice_append_def Let_def slice_read_def nth_append drop_take
      split: if_splits)

lemma slice_frame:
  assumes "valid m s" and "length (arrays m) \<le> length (arrays m')"
    and "arrays m' ! s_arr s = arrays m ! s_arr s"
  shows "valid m' s" and "slice_read m' s = slice_read m s"
  using assms by (auto simp: valid_def slice_read_def)

lemma pool_Get_props:
  assumes "apart m key" and "pool_Get m pick = (m0, b0)"
  shows "buf_ok m0 b0" and "sb_arr b0 \<noteq> s_arr key" and "valid m0 key"
    and "slice_read m0 key = slice_read m key"
proof -
  show "buf_ok m0 b0" "sb_arr b0 \<noteq> s_arr key"
    using assms
    by (auto simp: apart_def pool_Get_def buf_ok_def valid_def list_all_length nth_append
        split: if_splits)
  show "valid m0 key" "slice_read m0 key = slice_read m key"
    using assms
    by (auto simp: apart_def pool_Get_def valid_def slice_read_def nth_append split: if_splits)
qed

lemma Buf_Reset_ok: "buf_ok m b \<Longrightarrow> buf_ok m (Buf_Reset b)"
  by (simp add: buf_ok_def Buf_Reset_def)

lemma Buf_Bytes_Reset: "slice_read m (Buf_Bytes (Buf_Reset b)) = []"
  by (simp add: slice_read_def Buf_Bytes_def Buf_Reset_def)

lemma valid_Bytes: "buf_ok m b \<Longrightarrow> valid m (Buf_Bytes b)"
  by (simp add: buf_ok_def valid_def Buf_Bytes_def)

text \<open>The scratch buffer after the digits went through it, and the key the caller holds.\<close>

lemma scratch_holds:
  assumes "apart m key" and "pool_Get m pick = (m0, b0)"
    and "slice_append m0 (Buf_Bytes (Buf_Reset b0)) xs = (m1, p)"
    and "Buf_Write m1 (Buf_Reset b0) (slice_read m1 p) = (m2, b2)"
  shows "slice_read m2 (Buf_Bytes b2) = xs" and "slice_read m2 key = slice_read m key"
proof -
  note g = pool_Get_props [OF assms(1,2)]
  have r: "buf_ok m0 (Buf_Reset b0)" using g(1) by (rule Buf_Reset_ok)
  note a = slice_append_props [OF valid_Bytes [OF r] assms(3)]
  have p: "slice_read m1 p = xs" using a(2) by (simp add: Buf_Bytes_Reset)
  have neq: "s_arr key \<noteq> s_arr (Buf_Bytes (Buf_Reset b0))"
    using g(2) by (simp add: Buf_Bytes_def Buf_Reset_def)
  have k0: "s_arr key < length (arrays m0)" using g(3) by (simp add: valid_def)
  have k1: "valid m1 key" "slice_read m1 key = slice_read m0 key"
    using slice_frame [OF g(3) a(4)] a(6) [OF k0 neq] by simp_all
  have r1: "buf_ok m1 (Buf_Reset b0)"
    using r a(4) by (simp add: buf_ok_def Buf_Reset_def)
  note w = Buf_Write_props [OF r1 assms(4)]
  show "slice_read m2 (Buf_Bytes b2) = xs"
    using w(2) p by (simp add: Buf_Bytes_Reset)
  have k1': "s_arr key < length (arrays m1)" using k1(1) by (simp add: valid_def)
  have neq1: "s_arr key \<noteq> sb_arr (Buf_Reset b0)" using g(2) by (simp add: Buf_Reset_def)
  show "slice_read m2 key = slice_read m key"
    using slice_frame [OF k1(1) w(4)] w(6) [OF k1' neq1] k1(2) g(4) by simp
qed

lemma Buf_Write_apart:
  assumes "buf_ok m b" and "valid m v" and "sb_arr b \<noteq> s_arr v" and "Buf_Write m b p = (m', b')"
  shows "buf_ok m' b' \<and> valid m' v \<and> sb_arr b' \<noteq> s_arr v \<and> slice_read m' v = slice_read m v \<and>
         slice_read m' (Buf_Bytes b') = slice_read m (Buf_Bytes b) @ p \<and> bufPool m' = bufPool m"
proof -
  note w = Buf_Write_props [OF assms(1,4)]
  have k: "s_arr v < length (arrays m)" using assms(2) by (simp add: valid_def)
  have "arrays m' ! s_arr v = arrays m ! s_arr v" using w(6) [OF k] assms(3) by simp
  then have "valid m' v" "slice_read m' v = slice_read m v"
    using slice_frame [OF assms(2) w(4)] by simp_all
  moreover have "sb_arr b' \<noteq> s_arr v" using w(5) assms(3) k by auto
  ultimately show ?thesis using w(1,2,3) by simp
qed

lemma escape_spec_Cons:
  "escape_spec (c # cs) =
     (if c = backslash then [backslash, backslash] else if c = newLine then [space] else [c])
     @ escape_spec cs"
  by (simp add: escape_spec_def)

lemma Escape_loop_apart:
  assumes "buf_ok m b" and "valid m v" and "sb_arr b \<noteq> s_arr v" and "i + k \<le> s_len v"
    and "Escape_loop m b v i k = (m', b')"
  shows "slice_read m' (Buf_Bytes b')
           = slice_read m (Buf_Bytes b) @ escape_spec (take k (drop i (slice_read m v))) \<and>
         slice_read m' v = slice_read m v \<and> bufPool m' = bufPool m"
  using assms
proof (induction k arbitrary: m b i)
  case 0
  then show ?case by (simp add: escape_spec_def)
next
  case (Suc k)
  let ?xs = "slice_read m v"
  let ?c = "?xs ! i"
  have len: "length ?xs = s_len v"
    using Suc.prems(2) by (auto simp: valid_def slice_read_def)
  have i: "i < length ?xs" using Suc.prems(4) len by simp
  have tk: "take (Suc k) (drop i ?xs) = ?c # take k (drop (Suc i) ?xs)"
    using i by (simp add: Cons_nth_drop_Suc [symmetric])
  obtain m1 b1 where s1:
    "(if ?c = newLine then Buf_WriteByte m b space
      else if ?c = backslash
           then (case Buf_WriteByte m b backslash of (m1, b1) \<Rightarrow> Buf_WriteByte m1 b1 backslash)
           else Buf_WriteByte m b ?c) = (m1, b1)"
    by (cases "(if ?c = newLine then Buf_WriteByte m b space
      else if ?c = backslash
           then (case Buf_WriteByte m b backslash of (m1, b1) \<Rightarrow> Buf_WriteByte m1 b1 backslash)
           else Buf_WriteByte m b ?c)") auto
  have st: "buf_ok m1 b1 \<and> valid m1 v \<and> sb_arr b1 \<noteq> s_arr v \<and> slice_read m1 v = ?xs \<and>
        slice_read m1 (Buf_Bytes b1) = slice_read m (Buf_Bytes b) @ escape_spec [?c] \<and>
        bufPool m1 = bufPool m"
  proof (cases "?c = newLine")
    case True
    then have "Buf_Write m b [space] = (m1, b1)" using s1 by (simp add: Buf_WriteByte_def)
    from Buf_Write_apart [OF Suc.prems(1,2,3) this] True show ?thesis
      by (simp add: escape_spec_def byte_defs)
  next
    case False
    show ?thesis
    proof (cases "?c = backslash")
      case True
      obtain m0 b0 where w0: "Buf_Write m b [backslash] = (m0, b0)"
        by (cases "Buf_Write m b [backslash]") auto
      then have w1: "Buf_Write m0 b0 [backslash] = (m1, b1)"
        using s1 True False by (simp add: Buf_WriteByte_def)
      note a0 = Buf_Write_apart [OF Suc.prems(1,2,3) w0]
      from a0 have "buf_ok m0 b0" "valid m0 v" "sb_arr b0 \<noteq> s_arr v" by simp_all
      from Buf_Write_apart [OF this w1] a0 True show ?thesis
        by (simp add: escape_spec_def)
    next
      case ff: False
      then have "Buf_Write m b [?c] = (m1, b1)" using s1 False by (simp add: Buf_WriteByte_def)
      from Buf_Write_apart [OF Suc.prems(1,2,3) this] False ff show ?thesis
        by (simp add: escape_spec_def)
    qed
  qed
  have rec: "Escape_loop m1 b1 v (Suc i) k = (m', b')"
    using Suc.prems(5) s1 by (simp add: Let_def)
  have "slice_read m' (Buf_Bytes b')
           = slice_read m1 (Buf_Bytes b1) @ escape_spec (take k (drop (Suc i) (slice_read m1 v))) \<and>
         slice_read m' v = slice_read m1 v \<and> bufPool m' = bufPool m1"
    using st Suc.prems(4) by (intro Suc.IH [OF _ _ _ _ rec]) simp_all
  then show ?case
    using st tk by (simp add: escape_spec_def)
qed

lemma slice_read_pool_Put: "slice_read (pool_Put m b) s = slice_read m s"
  by (simp add: slice_read_def pool_Put_def)

text \<open>
  On a slice that shares no array with a buffer of the pool, \<^verbatim>\<open>Escape\<close> returns a slice that
  holds, when the call returns, the substitution of the specification, whichever buffer the
  pool hands out; and the argument is left as it was.
\<close>

lemma Escape_apart:
  assumes "apart m v" and "Escape m pick v = (r, m')"
  shows "slice_read m' r = escape_spec (slice_read m v)" and "slice_read m' v = slice_read m v"
proof -
  obtain m0 b0 where g: "pool_Get m pick = (m0, b0)" by (cases "pool_Get m pick") auto
  obtain m1 b1 where l: "Escape_loop m0 (Buf_Reset b0) v 0 (s_len v) = (m1, b1)"
    by (cases "Escape_loop m0 (Buf_Reset b0) v 0 (s_len v)") auto
  note p = pool_Get_props [OF assms(1) g]
  have len: "length (slice_read m0 v) = s_len v"
    using p(3) by (auto simp: valid_def slice_read_def)
  have "slice_read m1 (Buf_Bytes b1)
           = slice_read m0 (Buf_Bytes (Buf_Reset b0))
             @ escape_spec (take (s_len v) (drop 0 (slice_read m0 v))) \<and>
         slice_read m1 v = slice_read m0 v \<and> bufPool m1 = bufPool m0"
    using p by (intro Escape_loop_apart [OF _ _ _ _ l]) (simp_all add: buf_ok_def Buf_Reset_def)
  moreover have "r = Buf_Bytes b1" "m' = pool_Put m1 (Buf_Reset b1)"
    using assms(2) g l by (simp_all add: Escape_def)
  ultimately show "slice_read m' r = escape_spec (slice_read m v)"
    "slice_read m' v = slice_read m v"
    using len p(4) by (simp_all add: Buf_Bytes_Reset slice_read_pool_Put)
qed

text \<open>The two tests of the repository for \<^verbatim>\<open>Escape\<close>, on slices of a caller.\<close>

lemma Escape_test_backslash:
  "slice_read (snd (Escape (ex_mem\<lparr>arrays := [[47, backslash]]\<rparr>) 0 \<lparr>s_arr = 0, s_off = 0, s_len = 2\<rparr>))
     (fst (Escape (ex_mem\<lparr>arrays := [[47, backslash]]\<rparr>) 0 \<lparr>s_arr = 0, s_off = 0, s_len = 2\<rparr>))
   = [47, backslash, backslash]"
  by code_simp

lemma Escape_test_newline:
  "slice_read (snd (Escape (ex_mem\<lparr>arrays := [[newLine]]\<rparr>) 0 \<lparr>s_arr = 0, s_off = 0, s_len = 1\<rparr>))
     (fst (Escape (ex_mem\<lparr>arrays := [[newLine]]\<rparr>) 0 \<lparr>s_arr = 0, s_off = 0, s_len = 1\<rparr>))
   = [space]"
  by code_simp

text \<open>
  C6 does not hold of the code. \<^verbatim>\<open>Escape\<close> returns \<^verbatim>\<open>buf.Bytes()\<close>, a slice of the array of a
  buffer that its deferred function has put back into \<^verbatim>\<open>bufPool\<close> by the time the caller
  has the slice. Take the slice that a first call returned for a backslash and an \<^verbatim>\<open>x\<close>:
  it holds two backslashes and the \<^verbatim>\<open>x\<close>. A second call on this slice, to which the pool
  hands the same buffer, writes its output over its argument while it reads it, and
  returns six backslashes, where the substitution of the claim gives four backslashes and
  the \<^verbatim>\<open>x\<close>. And a call on the slice of another caller overwrites what the first call
  returned: its three bytes then are \<^verbatim>\<open>/fo\<close>.
\<close>

theorem Escape_result_in_pooled_buffer:
  "slice_read ex_pool ex_escaped = [backslash, backslash, 120] \<and>
   escape_spec (slice_read ex_pool ex_escaped)
     = [backslash, backslash, backslash, backslash, 120] \<and>
   slice_read (snd (Escape ex_pool 0 ex_escaped)) (fst (Escape ex_pool 0 ex_escaped))
     = replicate 6 backslash \<and>
   slice_read (snd (Escape ex_pool 0 ex_key)) ex_escaped = bytes_of ''/fo''"
  by code_simp

subsection \<open>Resetting the configuration\<close>

text \<open>
  C9. \<^verbatim>\<open>EncoderConfig.Reset\<close> is documented to put the configuration back to the defaults,
  which \<^verbatim>\<open>NewEncoder\<close> lists with a precision of 6. It assigns five of the six fields and
  leaves \<^verbatim>\<open>Precision\<close> as it was: a configuration with precision 2 keeps precision 2.
\<close>

theorem EncoderConfig_Reset_misses_Precision:
  "EncoderConfig_Reset
     \<lparr>Indent = TAB_MODE, Logging = False, UTCTimestamps = True, Round = False,
      Precision = 2, Pretty = True\<rparr>
   = \<lparr>Indent = SPACE_MODE, Logging = True, UTCTimestamps = False, Round = True,
      Precision = 2, Pretty = False\<rparr>"
  by (simp add: EncoderConfig_Reset_def)

lemma EncoderConfig_Reset_Precision: "Precision (EncoderConfig_Reset cfg) = Precision cfg"
  by (simp add: EncoderConfig_Reset_def)

lemma EncoderConfig_Reset_default_iff:
  "EncoderConfig_Reset cfg = enc_c NewEncoder \<longleftrightarrow> Precision cfg = PRECISION"
  by (cases cfg) (auto simp: EncoderConfig_Reset_def NewEncoder_def)

subsection \<open>After cancellation\<close>

text \<open>
  C2. Once the cancellation token of an encoder has fired, \<^verbatim>\<open>AppendByte\<close>, \<^verbatim>\<open>AppendBytes\<close>,
  \<^verbatim>\<open>flush\<close>, \<^verbatim>\<open>write\<close> and \<^verbatim>\<open>Write\<close> return normally and leave the encoder as it was:
  buffer, byte counter, flush counter and pipe are unchanged, so nothing is written to the
  sink. The two appends test the token before anything else; \<^verbatim>\<open>flush\<close> and \<^verbatim>\<open>write\<close> read
  the length of the buffer first, so for them the encoder must hold its buffer, as it does
  from \<^verbatim>\<open>GetEncoder\<close> to \<^verbatim>\<open>Release\<close>.
\<close>

theorem cancelled_noop:
  "cancelled enc \<Longrightarrow>
     AppendByte enc v = Inr enc \<and> AppendBytes enc vs = Inr enc \<and>
     (enc_b enc \<noteq> None \<longrightarrow>
        flush enc = Inr enc \<and> enc_write enc = Inr enc \<and> Write enc = Inr enc)"
  by (auto simp: AppendByte_def AppendBytes_def flush_def enc_write_def Write_def Done_def Len_def)

text \<open>Without a buffer (after \<^verbatim>\<open>Release\<close>), \<^verbatim>\<open>write\<close> panics on the nil buffer.\<close>

lemma enc_write_no_buffer: "enc_b enc = None \<Longrightarrow> enc_write enc = Inl (NilPointer, enc)"
  by (simp add: enc_write_def)

lemma ex_cancelled_simps:
  "cancelled ex_cancelled" "enc_b ex_cancelled \<noteq> None" "pending ex_cancelled = [1]"
  "delivered ex_cancelled = []"
  by (simp_all add: ex_cancelled_def AppendByte_live ex_enc_simps cancel_def reader_close_def
      pending_def delivered_def Buffer_Bytes_def buf_Buffer_Write ex_buffer_def ex_pipe_def
      Pipe_CloseReader_def)

theorem cancelled_noop_witness:
  "cancelled ex_cancelled \<and> enc_b ex_cancelled \<noteq> None \<and> pending ex_cancelled = [1] \<and>
   AppendByte ex_cancelled 2 = Inr ex_cancelled \<and>
   AppendBytes ex_cancelled [3, 4] = Inr ex_cancelled \<and>
   flush ex_cancelled = Inr ex_cancelled \<and> enc_write ex_cancelled = Inr ex_cancelled \<and>
   Write ex_cancelled = Inr ex_cancelled"
  using cancelled_noop [OF ex_cancelled_simps(1), of 2 "[3, 4]"] ex_cancelled_simps
  by simp

subsection \<open>The pretty-print pass\<close>

lemma indent_loop_replicate:
  "indent_loop i hi ind out = out @ replicate (nat (hi - i)) (if ind = 1 then tab else space)"
proof (induction i hi ind out rule: indent_loop.induct)
  case (1 i hi ind out)
  show ?case
  proof (cases "i < hi")
    case True
    then have "nat (hi - i) = Suc (nat (hi - (i + 1)))" by simp
    with True 1 show ?thesis
      by (subst indent_loop.simps) (simp add: replicate_app_Cons_same)
  next
    case False
    then show ?thesis by (subst indent_loop.simps) simp
  qed
qed

lemma indentNewLine_indent: "indentNewLine ind d out = out @ [newLine] @ indent ind d"
  by (simp add: indentNewLine_def indent_def indent_loop_replicate Let_def)

text \<open>
  As long as the products stay below \<open>2\<^sup>6\<^sup>3\<close>, an indent of \<open>d\<close> levels is \<open>4 * d\<close> spaces in
  the space mode and \<open>d\<close> tabs in the tab mode.
\<close>

lemma sint_small: "unat (w :: 64 word) < 2 ^ 63 \<Longrightarrow> sint w = int (unat w)"
proof -
  assume a: "unat w < 2 ^ 63"
  then have "uint w < 2 ^ 63"
    by (metis of_nat_less_numeral_power_cancel_iff of_nat_unat)
  moreover have "- (2 ^ 63) \<le> uint w"
    by (rule order_trans [of _ 0]) simp_all
  ultimately have "signed_take_bit 63 (uint w) = uint w"
    by (simp add: signed_take_bit_int_eq_self)
  then show ?thesis by (simp add: sint_uint)
qed

lemma indent_spaces:
  assumes "d < 2 ^ 61"
  shows "indent SPACE_MODE d = replicate (4 * unat d) space"
proof -
  have a: "unat d < 2 ^ 61" using assms by (simp add: word_less_nat_alt)
  then have u: "unat (d * 4) = unat d * 4"
    by (simp add: unat_word_ariths)
  have "unat (d * 4) < 2 ^ 63" using a u by simp
  then have "sint (d * 4) = int (unat (d * 4))" by (rule sint_small)
  then have "nat (sint (d * 4)) = unat (d * 4)" by (simp only: nat_int)
  with u have "nat (sint (d * 4)) = 4 * unat d" by (simp only: mult.commute)
  then show ?thesis by (simp add: indent_def SPACE_MODE_def INDENT_def)
qed

lemma indent_tabs:
  assumes "d < 2 ^ 63"
  shows "indent TAB_MODE d = replicate (unat d) tab"
proof -
  have "unat d < 2 ^ 63" using assms by (simp add: word_less_nat_alt)
  then show ?thesis by (simp add: indent_def TAB_MODE_def sint_small)
qed

lemma body_open:
  "c = lBrace \<or> c = lBracket \<Longrightarrow>
   PrettyPrint_body ind c d False out = (d + 1, False, out @ [c] @ [newLine] @ indent ind (d + 1))"
  by (auto simp: PrettyPrint_body_def indentNewLine_indent byte_defs)

lemma body_close:
  "c = rBrace \<or> c = rBracket \<Longrightarrow>
   PrettyPrint_body ind c d False out = (d - 1, False, out @ [newLine] @ indent ind (d - 1) @ [c])"
  by (auto simp: PrettyPrint_body_def indentNewLine_indent byte_defs)

lemma body_delim:
  "PrettyPrint_body ind delim d False out = (d, False, out @ [delim] @ [newLine] @ indent ind d)"
  by (auto simp: PrettyPrint_body_def indentNewLine_indent byte_defs)

lemma body_colon:
  "PrettyPrint_body ind colon d False out = (d, False, out @ [colon, space])"
  by (auto simp: PrettyPrint_body_def byte_defs)

lemma body_in_string:
  "PrettyPrint_body ind c d True out = (d, c \<noteq> quoteMark, out @ [c])"
  by (auto simp: PrettyPrint_body_def Let_def byte_defs)

lemma body_plain:
  "c \<notin> {lBrace, lBracket, rBrace, rBracket, delim, colon} \<Longrightarrow>
   PrettyPrint_body ind c d False out = (d, c = quoteMark, out @ [c])"
  by (auto simp: PrettyPrint_body_def Let_def byte_defs)

lemma PrettyPrint_loop_no_zero: "0 \<notin> set xs \<Longrightarrow> fst (PrettyPrint_loop ind xs d s out) = []"
  by (induction xs arbitrary: d s out) (auto split: prod.splits)

lemma PrettyPrint_loop_first_zero:
  "0 \<notin> set xs \<Longrightarrow> PrettyPrint_loop ind (xs @ 0 # ys) d s out =
     (case PrettyPrint_loop ind xs d s out of (r, d', s', out') \<Rightarrow> (ys, d', s', out'))"
  by (induction xs arbitrary: d s out) (auto split: prod.splits)

text \<open>The first pretty-print test of the repository, on the loop.\<close>

lemma PrettyPrint_test_empty_array:
  "PrettyPrint_loop SPACE_MODE
     (bytes_of ''{'' @ [quoteMark] @ bytes_of ''keys'' @ [quoteMark] @ bytes_of '':[]}'')
     0 False [] =
   ([], 0, False,
    bytes_of ''{'' @ [newLine] @ replicate 4 space @ [quoteMark] @ bytes_of ''keys''
    @ [quoteMark] @ bytes_of '': ['' @ [newLine] @ replicate 8 space @ [newLine]
    @ replicate 4 space @ bytes_of '']'' @ [newLine] @ bytes_of ''}'')"
  by (simp add: bytes_of_def PrettyPrint_body_def indentNewLine_indent indent_def byte_defs
      SPACE_MODE_def INDENT_def)

text \<open>
  C3, as the code has it. Outside a string, \<^verbatim>\<open>{\<close> or \<^verbatim>\<open>[\<close> increments the depth, is
  emitted, and is followed by a newline and an indent of the incremented depth; \<^verbatim>\<open>}\<close> or
  \<^verbatim>\<open>]\<close> decrements the depth first, then a newline and an indent of the decremented depth
  are emitted, then the character.
\<close>

theorem PrettyPrint_loop_brackets:
  "(c = lBrace \<or> c = lBracket \<longrightarrow>
      PrettyPrint_loop ind (c # rest) d False out =
      PrettyPrint_loop ind rest (d + 1) False (out @ [c] @ [newLine] @ indent ind (d + 1))) \<and>
   (c = rBrace \<or> c = rBracket \<longrightarrow>
      PrettyPrint_loop ind (c # rest) d False out =
      PrettyPrint_loop ind rest (d - 1) False (out @ [newLine] @ indent ind (d - 1) @ [c]))"
proof (intro conjI impI)
  assume a: "c = lBrace \<or> c = lBracket"
  then have "c \<noteq> 0" by (auto simp: byte_defs)
  then show "PrettyPrint_loop ind (c # rest) d False out =
      PrettyPrint_loop ind rest (d + 1) False (out @ [c] @ [newLine] @ indent ind (d + 1))"
    using body_open [OF a] by simp
next
  assume a: "c = rBrace \<or> c = rBracket"
  then have "c \<noteq> 0" by (auto simp: byte_defs)
  then show "PrettyPrint_loop ind (c # rest) d False out =
      PrettyPrint_loop ind rest (d - 1) False (out @ [newLine] @ indent ind (d - 1) @ [c])"
    using body_close [OF a] by simp
qed

theorem PrettyPrint_loop_brackets_witness:
  "PrettyPrint_loop SPACE_MODE [lBrace] 0 False [] =
     ([], 1, False, [lBrace, newLine] @ replicate 4 space) \<and>
   PrettyPrint_loop SPACE_MODE [rBracket] 2 False [] =
     ([], 1, False, [newLine] @ replicate 4 space @ [rBracket])"
  using PrettyPrint_loop_brackets [where c = lBrace and ind = SPACE_MODE and rest = "[]"
      and d = 0 and out = "[]"]
    PrettyPrint_loop_brackets [where c = rBracket and ind = SPACE_MODE and rest = "[]"
      and d = 2 and out = "[]"]
  by (simp add: indent_def SPACE_MODE_def INDENT_def byte_defs)

text \<open>
  C3, as the specification words it, fails: at depth 1 the code puts no indent before
  \<^verbatim>\<open>}\<close> (the depth is already 0 when the indent is written), where an indent of the current
  depth would be four spaces.
\<close>

theorem PrettyPrint_close_counterexample:
  "PrettyPrint_loop SPACE_MODE [rBrace] 1 False [] = ([], 0, False, [newLine, rBrace]) \<and>
   spec_close SPACE_MODE rBrace 1 [] = (0, [newLine] @ replicate 4 space @ [rBrace]) \<and>
   snd (snd (snd (PrettyPrint_loop SPACE_MODE [rBrace] 1 False [])))
     \<noteq> snd (spec_close SPACE_MODE rBrace 1 [])"
  using body_close [of rBrace SPACE_MODE 1 "[]"]
  by (simp add: spec_close_def indent_def SPACE_MODE_def INDENT_def byte_defs)

text \<open>
  C10, as the code has it. A byte other than zero that is read while the string flag is set
  is copied as it is and the pass goes on (a quote mark clears the flag); outside a string,
  a byte other than zero and the six structural characters is copied as it is (a quote mark
  sets the flag); a buffer without a zero byte is read to its end. A zero byte ends the
  pass: it is taken from the buffer and not copied, and what follows it is not read.
\<close>

theorem PrettyPrint_loop_bytes:
  "(c \<noteq> 0 \<longrightarrow>
      PrettyPrint_loop ind (c # rest) d True out =
      PrettyPrint_loop ind rest d (c \<noteq> quoteMark) (out @ [c])) \<and>
   (c \<notin> {0, lBrace, lBracket, rBrace, rBracket, delim, colon} \<longrightarrow>
      PrettyPrint_loop ind (c # rest) d False out =
      PrettyPrint_loop ind rest d (c = quoteMark) (out @ [c])) \<and>
   (0 \<notin> set xs \<longrightarrow> fst (PrettyPrint_loop ind xs d s out) = []) \<and>
   (0 \<notin> set xs \<longrightarrow>
      PrettyPrint_loop ind (xs @ 0 # ys) d s out =
      (case PrettyPrint_loop ind xs d s out of (r, d', s', out') \<Rightarrow> (ys, d', s', out')))"
proof (intro conjI impI)
  assume "c \<noteq> 0"
  then show "PrettyPrint_loop ind (c # rest) d True out =
      PrettyPrint_loop ind rest d (c \<noteq> quoteMark) (out @ [c])"
    by (simp add: body_in_string)
next
  assume a: "c \<notin> {0, lBrace, lBracket, rBrace, rBracket, delim, colon}"
  then have "c \<notin> {lBrace, lBracket, rBrace, rBracket, delim, colon}" by simp
  from body_plain [OF this] a
  show "PrettyPrint_loop ind (c # rest) d False out =
      PrettyPrint_loop ind rest d (c = quoteMark) (out @ [c])"
    by simp
next
  assume "0 \<notin> set xs"
  then show "fst (PrettyPrint_loop ind xs d s out) = []"
    by (rule PrettyPrint_loop_no_zero)
next
  assume "0 \<notin> set xs"
  then show "PrettyPrint_loop ind (xs @ 0 # ys) d s out =
      (case PrettyPrint_loop ind xs d s out of (r, d', s', out') \<Rightarrow> (ys, d', s', out'))"
    by (rule PrettyPrint_loop_first_zero)
qed

theorem PrettyPrint_loop_bytes_witness:
  "PrettyPrint_loop SPACE_MODE [lBrace, 200, quoteMark, 97] 3 True [] =
     ([], 3, False, [lBrace, 200, quoteMark, 97]) \<and>
   PrettyPrint_loop SPACE_MODE [97, 200] 3 False [] = ([], 3, False, [97, 200]) \<and>
   PrettyPrint_loop SPACE_MODE ([97, 98] @ 0 # [99]) 3 True [] = ([99], 3, True, [97, 98])"
  using PrettyPrint_loop_bytes [where c = lBrace and ind = SPACE_MODE
      and rest = "[200, quoteMark, 97]" and d = 3 and out = "[]" and xs = "[97, 98]"
      and ys = "[99]" and s = True]
  by (simp add: body_in_string body_plain byte_defs)

text \<open>
  C10, as stated, fails: with the string flag set, the zero byte of the buffer
  \<^verbatim>\<open>a\<close>, 0, \<^verbatim>\<open>b\<close> is not copied, and the pass ends there with \<^verbatim>\<open>b\<close> unread.
\<close>

theorem PrettyPrint_zero_byte_counterexample:
  "PrettyPrint_loop SPACE_MODE [97, 0, 98] 0 True [] = ([98], 0, True, [97]) \<and>
   PrettyPrint_loop SPACE_MODE [97, 0, 98] 0 True [] \<noteq> ([], 0, True, [97, 0, 98])"
  by (simp add: body_in_string byte_defs)

text \<open>
  On the encoder: the bytes after the zero byte are dropped from the buffer when the pass
  has produced output, and nothing of them reaches the sink.
\<close>

lemma PrettyPrint_zero_byte_drops:
  "observe (PrettyPrint (ex_enc\<lparr>enc_b := Some (ex_buffer\<lparr>buf := [97, 0, 98]\<rparr>)\<rparr>)) = Inr ([97], [])"
  by (simp add: observe_def PrettyPrint_def body_plain byte_defs Let_def pending_def
      delivered_def ex_enc_simps Buffer_Bytes_def Buffer_Write_def Buffer_Reset_def ex_buffer_def
      ex_pipe_def ex_enc_def GetEncoder_def NewEncoder_def SPACE_MODE_def)

subsection \<open>Keyed unsigned integers\<close>

lemma decimal_value_snoc: "decimal_value (ds @ [c]) = 10 * decimal_value ds + (unat c - 48)"
  by (simp add: decimal_value_def)

lemma unat_digit: "j < 10 \<Longrightarrow> unat (of_nat (48 + j) :: byte) = 48 + j"
proof -
  assume j: "j < 10"
  have "unat (word_of_nat (48 + j) :: byte) = (48 + j) mod 2 ^ LENGTH(8)"
    by (rule unat_of_nat)
  also have "\<dots> = 48 + j" using j by simp
  finally show ?thesis .
qed

text \<open>
  \<open>decimal\<close> writes the decimal representation: its digits denote the number, they are
  ASCII digits, and a number below \<open>10\<^sup>n\<close> has at most \<open>n\<close> of them.
\<close>

lemma decimal_value_decimal: "decimal_value (decimal k) = k"
proof (induction k rule: decimal.induct)
  case (1 k)
  show ?case
  proof (cases "k < 10")
    case True
    then show ?thesis
      by (subst decimal.simps) (simp add: decimal_value_def unat_digit del: of_nat_add)
  next
    case False
    have "decimal k = decimal (k div 10) @ [of_nat (48 + k mod 10)]"
      using False by (subst decimal.simps) simp
    then show ?thesis
      using 1 False by (simp add: decimal_value_snoc unat_digit del: of_nat_add)
  qed
qed

lemma digit_range: "j < 10 \<Longrightarrow> 48 \<le> (of_nat (48 + j) :: byte) \<and> (of_nat (48 + j) :: byte) \<le> 57"
  using unat_digit [of j] by (simp add: word_le_nat_alt del: of_nat_add)

lemma decimal_digits: "list_all (\<lambda>c. 48 \<le> c \<and> c \<le> 57) (decimal k)"
proof (induction k rule: decimal.induct)
  case (1 k)
  show ?case
  proof (cases "k < 10")
    case True
    then show ?thesis
      using digit_range [of k] by (subst decimal.simps) (simp del: of_nat_add)
  next
    case False
    have "decimal k = decimal (k div 10) @ [of_nat (48 + k mod 10)]"
      using False by (subst decimal.simps) simp
    then show ?thesis
      using 1 False digit_range [of "k mod 10"] by (simp del: of_nat_add)
  qed
qed

lemma decimal_length_le: "k < 10 ^ Suc m \<Longrightarrow> length (decimal k) \<le> Suc m"
proof (induction m arbitrary: k)
  case 0
  then show ?case by (subst decimal.simps) simp
next
  case (Suc m)
  show ?case
  proof (cases "k < 10")
    case True
    then show ?thesis by (subst decimal.simps) simp
  next
    case False
    have "k div 10 < 10 ^ Suc m" using Suc.prems by (simp add: less_mult_imp_div_less)
    then have "length (decimal (k div 10)) \<le> Suc m" by (rule Suc.IH)
    then show ?thesis using False by (subst decimal.simps) simp
  qed
qed

lemma decimal_uint32_length: "length (decimal (unat (v :: 32 word))) \<le> 10"
proof -
  have "unat v < 2 ^ 32" using unsigned_less [of v, where 'a = nat] by simp
  then have "unat v < 10 ^ Suc 9" by simp
  then show ?thesis using decimal_length_le [of "unat v" 9] by simp
qed

lemma decimal_first_digit:
  "\<exists>j ds. decimal k = of_nat (48 + j) # ds \<and> j < 10 \<and> (k \<noteq> 0 \<longrightarrow> j \<noteq> 0)"
proof (induction k rule: decimal.induct)
  case (1 k)
  show ?case
  proof (cases "k < 10")
    case True
    then have "decimal k = of_nat (48 + k) # []" by (subst decimal.simps) simp
    then show ?thesis using True by blast
  next
    case False
    then obtain j ds where "decimal (k div 10) = of_nat (48 + j) # ds" "j < 10"
      "k div 10 \<noteq> 0 \<longrightarrow> j \<noteq> 0"
      using 1 by blast
    moreover have "k div 10 \<noteq> 0" using False by simp
    moreover have "decimal k = decimal (k div 10) @ [of_nat (48 + k mod 10)]"
      using False by (subst decimal.simps) simp
    ultimately have "decimal k = of_nat (48 + j) # (ds @ [of_nat (48 + k mod 10)])" "j < 10"
      "j \<noteq> 0"
      by simp_all
    then show ?thesis by blast
  qed
qed


text \<open>So the digits of a number other than 0 do not start with the digit 0.\<close>

lemma decimal_no_leading_zero: "k \<noteq> 0 \<Longrightarrow> \<exists>c ds. decimal k = c # ds \<and> c \<noteq> 48"
proof -
  assume "k \<noteq> 0"
  then obtain j ds where d: "decimal k = of_nat (48 + j) # ds" "j < 10" "j \<noteq> 0"
    using decimal_first_digit [of k] by blast
  have "unat (of_nat (48 + j) :: byte) = 48 + j" using d(2) by (rule unat_digit)
  then have "(of_nat (48 + j) :: byte) \<noteq> 48" using d(3) by (auto simp del: of_nat_add)
  then show ?thesis using d(1) by blast
qed

lemma decimal_test: "decimal 473829 = bytes_of ''473829''"
  by (simp add: decimal.simps bytes_of_def)

lemma unat_ucast_32_64: "unat (ucast (v :: 32 word) :: 64 word) = unat v"
proof -
  have "unat v < 2 ^ 32" using unsigned_less [of v, where 'a = nat] by simp
  then have "unat v < 2 ^ 64" by (rule less_trans) simp
  then show ?thesis by (simp add: unsigned_ucast_eq take_bit_nat_eq_self)
qed

text \<open>Below the threshold, the appends of a keyed value only extend the buffer.\<close>

lemma keyed_plain:
  assumes "enc_b enc = Some bb" and "buf bb = []" and "\<not> cancelled enc"
    and "length key + length digits + 3 < MAXBUFSIZE"
  shows "\<exists>bb'. keyed enc key digits dl False = Inr (enc\<lparr>enc_b := Some bb'\<rparr>) \<and>
           buf bb' = [quoteMark] @ key @ [quoteMark, colon] @ digits
                      @ (if dl then [delim] else [])"
  using assms
  by (auto simp: keyed_def ObjectKey_def EncodeKey_def Delim_def
      andThen_def AppendByte_live AppendBytes_below buf_Buffer_Write intro!: exI)

lemma keyed_encoded:
  assumes "enc_b enc = Some bb" and "buf bb = []" and "\<not> cancelled enc"
    and "length key + length digits + 4 < MAXBUFSIZE"
  shows "\<exists>bb'. keyed enc key digits dl True = Inr (enc\<lparr>enc_b := Some bb'\<rparr>) \<and>
           buf bb' = [quoteMark] @ key @ [quoteMark, colon, quoteMark] @ digits
                      @ [quoteMark] @ (if dl then [delim] else [])"
  using assms
  by (auto simp: keyed_def ObjectKey_def EncodeKey_def Delim_def
      andThen_def AppendByte_live AppendBytes_below buf_Buffer_Write intro!: exI)

subsection \<open>What reaches the sink\<close>

text \<open>
  On an encoder that is open and plain, every append succeeds and extends the stream (the
  bytes delivered followed by the bytes pending) by exactly the bytes appended, whether a
  flush happens or not; a write then delivers all of it.
\<close>

lemma enc_write_open_plain:
  assumes "open_plain enc"
  shows "\<exists>e. enc_write enc = Inr e \<and> open_plain e \<and> pending e = [] \<and>
             concat (delivered e) = stream enc"
  using assms
  by (auto simp: open_plain_def enc_write_def stream_def pending_def delivered_def Done_def
      andThen_def Pipe_Write_def Buffer_Len_def Buffer_Bytes_def Buffer_Reset_def
      split: option.splits)

lemma AppendByte_open_plain:
  assumes "open_plain enc"
  shows "\<exists>e. AppendByte enc v = Inr e \<and> open_plain e \<and> stream e = stream enc @ [v]"
  using assms
  by (auto simp: open_plain_def AppendByte_def stream_def pending_def delivered_def Done_def
      Buffer_WriteByte_def Buffer_Write_def Buffer_Bytes_def split: option.splits)

lemma AppendBytes_open_plain:
  assumes "open_plain enc"
  shows "\<exists>e. AppendBytes enc v = Inr e \<and> open_plain e \<and> stream e = stream enc @ v"
proof -
  obtain bb where bb: "enc_b enc = Some bb" using assms by (auto simp: open_plain_def)
  let ?e1 = "enc\<lparr>enc_b := Some (Buffer_Write bb v)\<rparr>"
  have o1: "open_plain ?e1" using assms by (simp add: open_plain_def)
  have s1: "stream ?e1 = stream enc @ v"
    using bb by (simp add: stream_def pending_def delivered_def Buffer_Bytes_def Buffer_Write_def)
  have a: "AppendBytes enc v = flush ?e1"
    using assms bb by (simp add: AppendBytes_def open_plain_def Done_def)
  show ?thesis
  proof (cases "Buffer_Len (Buffer_Write bb v) \<ge> MAXBUFSIZE")
    case True
    then have "flush ?e1 = enc_write ?e1" by (simp add: flush_def Len_def)
    moreover obtain e where "enc_write ?e1 = Inr e" "open_plain e" "pending e = []"
      "concat (delivered e) = stream ?e1"
      using enc_write_open_plain [OF o1] by blast
    ultimately show ?thesis using a s1 by (simp add: stream_def)
  next
    case False
    then have "flush ?e1 = Inr ?e1" by (simp add: flush_def Len_def)
    then show ?thesis using a o1 s1 by simp
  qed
qed

lemma EncodeKey_open_plain:
  assumes "open_plain enc"
  shows "\<exists>e. EncodeKey enc v = Inr e \<and> open_plain e \<and>
             stream e = stream enc @ [quoteMark] @ v @ [quoteMark]"
proof -
  obtain e1 where e1: "AppendByte enc quoteMark = Inr e1" "open_plain e1"
    "stream e1 = stream enc @ [quoteMark]"
    using AppendByte_open_plain [OF assms] by blast
  obtain e2 where e2: "AppendBytes e1 v = Inr e2" "open_plain e2" "stream e2 = stream e1 @ v"
    using AppendBytes_open_plain [OF e1(2)] by blast
  obtain e3 where e3: "AppendByte e2 quoteMark = Inr e3" "open_plain e3"
    "stream e3 = stream e2 @ [quoteMark]"
    using AppendByte_open_plain [OF e2(2)] by blast
  show ?thesis using e1 e2 e3 by (simp add: EncodeKey_def andThen_def)
qed

lemma ObjectKey_open_plain:
  assumes "open_plain enc"
  shows "\<exists>e. ObjectKey enc v = Inr e \<and> open_plain e \<and>
             stream e = stream enc @ [quoteMark] @ v @ [quoteMark, colon]"
proof -
  obtain e1 where e1: "EncodeKey enc v = Inr e1" "open_plain e1"
    "stream e1 = stream enc @ [quoteMark] @ v @ [quoteMark]"
    using EncodeKey_open_plain [OF assms] by blast
  obtain e2 where e2: "AppendByte e1 colon = Inr e2" "open_plain e2"
    "stream e2 = stream e1 @ [colon]"
    using AppendByte_open_plain [OF e1(2)] by blast
  show ?thesis using e1 e2 by (simp add: ObjectKey_def andThen_def)
qed

lemma Delim_if_open_plain:
  assumes "open_plain enc"
  shows "\<exists>e. (if dl then Delim enc else Inr enc) = Inr e \<and> open_plain e \<and>
             stream e = stream enc @ (if dl then [delim] else [])"
  using AppendByte_open_plain [OF assms, of delim] assms by (auto simp: Delim_def)

lemma keyed_open_plain:
  assumes "open_plain enc"
  shows "\<exists>e. keyed enc key digits dl encode = Inr e \<and> open_plain e \<and>
             stream e = stream enc @ [quoteMark] @ key @ [quoteMark, colon]
               @ (if encode then [quoteMark] @ digits @ [quoteMark] else digits)
               @ (if dl then [delim] else [])"
proof -
  obtain e1 where e1: "ObjectKey enc key = Inr e1" "open_plain e1"
    "stream e1 = stream enc @ [quoteMark] @ key @ [quoteMark, colon]"
    using ObjectKey_open_plain [OF assms] by blast
  obtain e2 where e2:
    "(if encode then EncodeKey e1 digits else AppendBytes e1 digits) = Inr e2"
    "open_plain e2"
    "stream e2 = stream e1 @ (if encode then [quoteMark] @ digits @ [quoteMark] else digits)"
    using EncodeKey_open_plain [OF e1(2), of digits]
      AppendBytes_open_plain [OF e1(2), of digits]
    by (cases encode) auto
  obtain e3 where e3: "(if dl then Delim e2 else Inr e2) = Inr e3" "open_plain e3"
    "stream e3 = stream e2 @ (if dl then [delim] else [])"
    using Delim_if_open_plain [OF e2(2)] by blast
  show ?thesis using e1 e2 e3
    by (simp add: keyed_def andThen_def)
qed

lemma andThen_case:
  "fst (case r of Inl x \<Rightarrow> (Inl x, ma) | Inr e \<Rightarrow> (f e, mb)) = andThen r f"
  by (cases r) (auto simp: andThen_def)

lemma andThen_assoc: "andThen (andThen r f) g = andThen r (\<lambda>e. andThen (f e) g)"
  by (cases r) (auto simp: andThen_def)

lemma writeUint64Key_fst:
  "fst (writeUint64Key m pick enc key v dl encode)
     = (case scratch m pick (decimal (unat v)) of
          (m2, b2) \<Rightarrow> keyed enc (slice_read m2 key) (slice_read m2 (Buf_Bytes b2)) dl encode)"
  by (simp add: writeUint64Key_def AppendUint_def scratch_def andThen_case keyed_def andThen_assoc
      split: prod.splits)

lemma scratch_apart:
  assumes "apart m key" and "scratch m pick xs = (m2, b2)"
  shows "slice_read m2 (Buf_Bytes b2) = xs" and "slice_read m2 key = slice_read m key"
proof -
  obtain m0 b0 where g: "pool_Get m pick = (m0, b0)" by (cases "pool_Get m pick") auto
  obtain m1 p where a: "slice_append m0 (Buf_Bytes (Buf_Reset b0)) xs = (m1, p)"
    by (cases "slice_append m0 (Buf_Bytes (Buf_Reset b0)) xs") auto
  have w: "Buf_Write m1 (Buf_Reset b0) (slice_read m1 p) = (m2, b2)"
    using assms(2) g a by (simp add: scratch_def)
  show "slice_read m2 (Buf_Bytes b2) = xs" "slice_read m2 key = slice_read m key"
    using scratch_holds [OF assms(1) g a w] by simp_all
qed

text \<open>
  With a key that shares no array with a buffer of the pool, the writers make their appends
  with the bytes of the key and the digits of the value, whichever buffer the pool hands out.
\<close>

lemma writeUint64Key_apart:
  assumes "apart m key"
  shows "fst (writeUint64Key m pick enc key v dl encode)
           = keyed enc (slice_read m key) (decimal (unat v)) dl encode"
proof -
  obtain m2 b2 where s: "scratch m pick (decimal (unat v)) = (m2, b2)"
    by (cases "scratch m pick (decimal (unat v))") auto
  show ?thesis
    using scratch_apart [OF assms s] by (simp add: writeUint64Key_fst s)
qed

text \<open>
  C5, as the code has it. Let the key be a slice that shares no array with a buffer of the
  pool, \<open>K\<close> its bytes, and \<open>digits\<close> the decimal representation of the value. On an
  encoder with an empty buffer and an unfired token, whichever buffer the pool hands out:
  if \<open>K\<close>, the digits and three more bytes stay below the threshold, \<^verbatim>\<open>WriteUint32Key\<close>
  leaves exactly \<^verbatim>\<open>"K":D,\<close> (with the delimiter) or \<^verbatim>\<open>"K":D\<close> (without) in the
  buffer and changes nothing else of the encoder; if four more bytes stay below it,
  \<^verbatim>\<open>WriteEncodedUint32Key\<close> leaves \<^verbatim>\<open>"K":"D"\<close>, with \<^verbatim>\<open>,\<close> after it when the delimiter is
  asked for. For a key of any length, on an open and plain encoder the same bytes are
  added to the stream, part of them delivered to the sink by the flush.
\<close>

theorem WriteUint32Key_appends:
  assumes "enc_b enc = Some bb" and "buf bb = []" and "\<not> cancelled enc"
    and "apart m key" and "K = slice_read m key" and "digits = decimal (unat v)"
  shows
    "decimal_value digits = unat v \<and> list_all (\<lambda>c. 48 \<le> c \<and> c \<le> 57) digits \<and>
     (length K + length digits + 3 < MAXBUFSIZE \<longrightarrow>
        (\<exists>bb'. fst (WriteUint32Key m pick enc key v True) = Inr (enc\<lparr>enc_b := Some bb'\<rparr>) \<and>
               buf bb' = [quoteMark] @ K @ [quoteMark, colon] @ digits @ [delim]) \<and>
        (\<exists>bb'. fst (WriteUint32Key m pick enc key v False) = Inr (enc\<lparr>enc_b := Some bb'\<rparr>) \<and>
               buf bb' = [quoteMark] @ K @ [quoteMark, colon] @ digits)) \<and>
     (length K + length digits + 4 < MAXBUFSIZE \<longrightarrow>
        (\<exists>bb'. fst (WriteEncodedUint32Key m pick enc key v False)
                 = Inr (enc\<lparr>enc_b := Some bb'\<rparr>) \<and>
               buf bb' = [quoteMark] @ K @ [quoteMark, colon, quoteMark] @ digits
                          @ [quoteMark]) \<and>
        (\<exists>bb'. fst (WriteEncodedUint32Key m pick enc key v True)
                 = Inr (enc\<lparr>enc_b := Some bb'\<rparr>) \<and>
               buf bb' = [quoteMark] @ K @ [quoteMark, colon, quoteMark] @ digits
                          @ [quoteMark, delim])) \<and>
     (open_plain enc \<longrightarrow>
        (\<exists>e. fst (WriteUint32Key m pick enc key v True) = Inr e \<and>
             stream e = stream enc @ [quoteMark] @ K @ [quoteMark, colon] @ digits @ [delim]) \<and>
        (\<exists>e. fst (WriteUint32Key m pick enc key v False) = Inr e \<and>
             stream e = stream enc @ [quoteMark] @ K @ [quoteMark, colon] @ digits) \<and>
        (\<exists>e. fst (WriteEncodedUint32Key m pick enc key v False) = Inr e \<and>
             stream e = stream enc @ [quoteMark] @ K @ [quoteMark, colon, quoteMark] @ digits
                          @ [quoteMark]) \<and>
        (\<exists>e. fst (WriteEncodedUint32Key m pick enc key v True) = Inr e \<and>
             stream e = stream enc @ [quoteMark] @ K @ [quoteMark, colon, quoteMark] @ digits
                          @ [quoteMark, delim]))"
proof -
  let ?u = "ucast v :: 64 word"
  have d: "decimal (unat ?u) = digits"
    using assms(6) by (simp add: unat_ucast_32_64)
  have w: "fst (writeUint64Key m pick enc key ?u dl encode) = keyed enc K digits dl encode"
    for dl encode
    using writeUint64Key_apart [OF assms(4)] assms(5) d by simp
  have v: "decimal_value digits = unat v" "list_all (\<lambda>c. 48 \<le> c \<and> c \<le> 57) digits"
    using assms(6) by (simp_all add: decimal_value_decimal decimal_digits)
  have p: "length K + length digits + 3 < MAXBUFSIZE \<Longrightarrow>
      \<exists>bb'. keyed enc K digits dl False = Inr (enc\<lparr>enc_b := Some bb'\<rparr>) \<and>
        buf bb' = [quoteMark] @ K @ [quoteMark, colon] @ digits
                   @ (if dl then [delim] else [])" for dl
    using keyed_plain [OF assms(1-3), of K digits dl] by simp
  have q: "length K + length digits + 4 < MAXBUFSIZE \<Longrightarrow>
      \<exists>bb'. keyed enc K digits dl True = Inr (enc\<lparr>enc_b := Some bb'\<rparr>) \<and>
        buf bb' = [quoteMark] @ K @ [quoteMark, colon, quoteMark] @ digits
                   @ [quoteMark] @ (if dl then [delim] else [])" for dl
    using keyed_encoded [OF assms(1-3), of K digits dl] by simp
  have r: "open_plain enc \<Longrightarrow>
      \<exists>e. keyed enc K digits dl encode = Inr e \<and>
        stream e = stream enc @ [quoteMark] @ K @ [quoteMark, colon]
          @ (if encode then [quoteMark] @ digits @ [quoteMark] else digits)
          @ (if dl then [delim] else [])" for dl encode
    using keyed_open_plain [of enc K digits dl encode] by auto
  show ?thesis
    using v p [of True] p [of False] q [of True] q [of False]
      r [of True False] r [of False False] r [of False True] r [of True True]
    by (simp add: WriteUint32Key_def WriteUint64Key_def WriteEncodedUint32Key_def
        WriteEncodedUint64Key_def w)
qed

text \<open>
  The two tests of the repository for these writers, with their key and value, in a
  memory whose pool holds a buffer, which the writer gets.
\<close>

lemma ex_pool_apart: "apart ex_pool ex_key"
  by code_simp

lemma ex_pool_pooled: "bufPool ex_pool = [\<lparr>sb_arr = 4, sb_len = 0\<rparr>]"
  by code_simp

lemma ex_pool_key: "slice_read ex_pool ex_key = bytes_of ''/foo/bar''"
  by code_simp

theorem WriteUint32Key_appends_witness:
  "enc_b ex_enc = Some (ex_buffer\<lparr>cap := 4096\<rparr>) \<and> buf (ex_buffer\<lparr>cap := 4096\<rparr>) = [] \<and>
   \<not> cancelled ex_enc \<and> open_plain ex_enc \<and> apart ex_pool ex_key \<and>
   bufPool ex_pool = [\<lparr>sb_arr = 4, sb_len = 0\<rparr>] \<and>
   bytes_of ''/foo/bar'' = slice_read ex_pool ex_key \<and>
   bytes_of ''473829'' = decimal (unat (473829 :: 32 word)) \<and>
   length (bytes_of ''/foo/bar'') + length (bytes_of ''473829'') + 4 < MAXBUFSIZE \<and>
   observe (fst (WriteUint32Key ex_pool 0 ex_enc ex_key 473829 True))
     = Inr ([quoteMark] @ bytes_of ''/foo/bar'' @ [quoteMark, colon] @ bytes_of ''473829''
            @ [delim], []) \<and>
   observe (fst (WriteEncodedUint32Key ex_pool 0 ex_enc ex_key 473829 False))
     = Inr ([quoteMark] @ bytes_of ''/foo/bar'' @ [quoteMark, colon, quoteMark]
            @ bytes_of ''473829'' @ [quoteMark], [])"
proof -
  have h: "enc_b ex_enc = Some (ex_buffer\<lparr>cap := 4096\<rparr>)" "buf (ex_buffer\<lparr>cap := 4096\<rparr>) = []"
    "\<not> cancelled ex_enc" "apart ex_pool ex_key"
    "bytes_of ''/foo/bar'' = slice_read ex_pool ex_key"
    "bytes_of ''473829'' = decimal (unat (473829 :: 32 word))"
    by (simp_all add: ex_enc_simps ex_buffer_def decimal_test ex_pool_apart ex_pool_key)
  have o: "open_plain ex_enc"
    by (simp add: open_plain_def ex_enc_simps ex_pipe_def)
  have l: "length (bytes_of ''/foo/bar'') + length (bytes_of ''473829'') + 4 < MAXBUFSIZE"
    by (simp add: bytes_of_def MAXBUFSIZE_def)
  from WriteUint32Key_appends [OF h, of 0] l
  obtain b1 b2 where
    "fst (WriteUint32Key ex_pool 0 ex_enc ex_key 473829 True) = Inr (ex_enc\<lparr>enc_b := Some b1\<rparr>)"
    "buf b1 = [quoteMark] @ bytes_of ''/foo/bar'' @ [quoteMark, colon] @ bytes_of ''473829''
       @ [delim]"
    "fst (WriteEncodedUint32Key ex_pool 0 ex_enc ex_key 473829 False)
       = Inr (ex_enc\<lparr>enc_b := Some b2\<rparr>)"
    "buf b2 = [quoteMark] @ bytes_of ''/foo/bar'' @ [quoteMark, colon, quoteMark]
       @ bytes_of ''473829'' @ [quoteMark]"
    by auto
  then show ?thesis
    using h o l ex_pool_pooled
    by (simp add: observe_def pending_def delivered_def Buffer_Bytes_def ex_enc_simps ex_pipe_def)
qed


text \<open>
  C5, as stated for every key, fails in two ways. With a key of 4095 bytes the quote mark
  and the key reach the threshold, \<^verbatim>\<open>AppendBytes\<close> flushes them to the sink, and the buffer
  holds only \<^verbatim>\<open>":0,\<close> afterwards. And a key that \<^verbatim>\<open>Escape\<close> returned lies in the array
  of a buffer of the pool: the writer gets that buffer for its digits and writes them over
  the key before it appends the key, so for the key \<^verbatim>\<open>/foo/bar\<close> and the value 473829 it
  appends \<^verbatim>\<open>"473829ar":473829,\<close>.
\<close>

lemma ex_long_apart: "apart ex_long \<lparr>s_arr = 0, s_off = 0, s_len = 4095\<rparr>"
  by (simp add: apart_def valid_def ex_long_def ex_mem_def)

lemma ex_long_key: "slice_read ex_long \<lparr>s_arr = 0, s_off = 0, s_len = 4095\<rparr> = replicate 4095 97"
  by (simp add: slice_read_def ex_long_def ex_mem_def)

lemma long_key_flushed:
  "observe (fst (WriteUint32Key ex_long 0 ex_enc \<lparr>s_arr = 0, s_off = 0, s_len = 4095\<rparr> 0 True))
     = Inr ([quoteMark, colon, 48, delim], [quoteMark # replicate 4095 97])"
  by (simp add: WriteUint32Key_def WriteUint64Key_def writeUint64Key_apart [OF ex_long_apart]
      ex_long_key observe_def keyed_def ObjectKey_def
      EncodeKey_def Delim_def AppendByte_def AppendBytes_def flush_def Len_def
      enc_write_def Done_def andThen_def decimal.simps
      ex_enc_simps Buffer_WriteByte_def Buffer_Write_def Buffer_Len_def Buffer_Bytes_def
      Buffer_Reset_def Pipe_Write_def ex_pipe_def ex_buffer_def
      pending_def delivered_def MAXBUFSIZE_def)


lemma escaped_key: "slice_read (snd (Escape ex_heap 0 ex_key)) (fst (Escape ex_heap 0 ex_key)) = bytes_of ''/foo/bar''"
  by code_simp

lemma escaped_key_scratch:
  "slice_read (fst (scratch (snd (Escape ex_heap 0 ex_key)) 0 (bytes_of ''473829'')))
     (fst (Escape ex_heap 0 ex_key)) = bytes_of ''473829ar'' \<and>
   slice_read (fst (scratch (snd (Escape ex_heap 0 ex_key)) 0 (bytes_of ''473829'')))
     (Buf_Bytes (snd (scratch (snd (Escape ex_heap 0 ex_key)) 0 (bytes_of ''473829''))))
     = bytes_of ''473829''"
  by code_simp

lemma escaped_key_overwritten:
  "observe (fst (WriteUint32Key (snd (Escape ex_heap 0 ex_key)) 0 ex_enc
                   (fst (Escape ex_heap 0 ex_key)) 473829 True))
     = Inr ([quoteMark] @ bytes_of ''473829ar'' @ [quoteMark, colon] @ bytes_of ''473829''
            @ [delim], [])"
proof -
  have d: "decimal (unat (ucast (473829 :: 32 word) :: 64 word)) = bytes_of ''473829''"
    by (simp add: unat_ucast_32_64 decimal_test)
  have l: "length (bytes_of ''473829ar'') + length (bytes_of ''473829'') + 3 < MAXBUFSIZE"
    by (simp add: bytes_of_def MAXBUFSIZE_def)
  have h: "enc_b ex_enc = Some (ex_buffer\<lparr>cap := 4096\<rparr>)" "buf (ex_buffer\<lparr>cap := 4096\<rparr>) = []"
    "\<not> cancelled ex_enc"
    by (simp_all add: ex_enc_simps ex_buffer_def)
  obtain bb' where
    "keyed ex_enc (bytes_of ''473829ar'') (bytes_of ''473829'') True False
       = Inr (ex_enc\<lparr>enc_b := Some bb'\<rparr>)"
    "buf bb' = [quoteMark] @ bytes_of ''473829ar'' @ [quoteMark, colon] @ bytes_of ''473829''
                 @ [delim]"
    using keyed_plain [OF h l, of True] by auto
  then show ?thesis
    using escaped_key_scratch
    by (simp add: WriteUint32Key_def WriteUint64Key_def writeUint64Key_fst d decimal_test split_beta
        observe_def pending_def delivered_def Buffer_Bytes_def ex_enc_simps ex_pipe_def)
qed

theorem WriteUint32Key_every_key_counterexample:
  "observe (fst (WriteUint32Key ex_long 0 ex_enc \<lparr>s_arr = 0, s_off = 0, s_len = 4095\<rparr> 0 True))
     = Inr ([quoteMark, colon, 48, delim], [quoteMark # replicate 4095 97]) \<and>
   [quoteMark, colon, 48, delim]
     \<noteq> [quoteMark] @ replicate 4095 97 @ [quoteMark, colon] @ decimal (unat (0 :: 32 word))
        @ [delim] \<and>
   slice_read (snd (Escape ex_heap 0 ex_key)) (fst (Escape ex_heap 0 ex_key))
     = bytes_of ''/foo/bar'' \<and>
   observe (fst (WriteUint32Key (snd (Escape ex_heap 0 ex_key)) 0 ex_enc
                   (fst (Escape ex_heap 0 ex_key)) 473829 True))
     = Inr ([quoteMark] @ bytes_of ''473829ar'' @ [quoteMark, colon] @ bytes_of ''473829''
            @ [delim], [])"
proof -
  have "[quoteMark, colon, 48, delim]
     \<noteq> [quoteMark] @ replicate 4095 97 @ [quoteMark, colon] @ decimal (unat (0 :: 32 word))
        @ [delim]"
  proof
    assume "[quoteMark, colon, 48, delim]
      = [quoteMark] @ replicate 4095 97 @ [quoteMark, colon] @ decimal (unat (0 :: 32 word))
        @ [delim]"
    then have "length [quoteMark, colon, 48, delim]
      = length ([quoteMark] @ replicate 4095 97 @ [quoteMark, colon]
          @ decimal (unat (0 :: 32 word)) @ [delim])"
      by (rule arg_cong)
    then show False by simp
  qed
  then show ?thesis
    using long_key_flushed escaped_key escaped_key_overwritten by simp
qed

subsection \<open>Appends and the threshold\<close>





text \<open>
  \<^verbatim>\<open>AppendByte\<close> has no call to \<^verbatim>\<open>flush\<close>: on an encoder that is not cancelled it only
  extends the buffer, whatever the length of the buffer.
\<close>

lemma AppendByte_only_appends:
  "\<not> cancelled e \<Longrightarrow> enc_b e = Some b0 \<Longrightarrow>
   AppendByte e v = Inr (e\<lparr>enc_b := Some (Buffer_WriteByte b0 v)\<rparr>)"
  by (simp add: AppendByte_def Done_def)












subsection \<open>Release after a failed write\<close>

text \<open>
  The counters follow the pipe: every call and every event keeps the invariant \<open>counted\<close>,
  whether it returns or panics, and with a buffer and a pipe in place the only panic is
  that of a failed write.
\<close>

lemma PrettyPrint_counted:
  assumes "counted f0 n0 rs0 enc"
  shows "\<exists>e. PrettyPrint enc = Inr e \<and> counted f0 n0 rs0 e \<and> cancelled e = cancelled enc"
  using assms
  by (auto simp: counted_def PrettyPrint_def Let_def split: prod.splits)

lemma enc_write_counted:
  assumes "counted f0 n0 rs0 enc"
  shows "(\<exists>e. enc_write enc = Inr e \<and> counted f0 n0 rs0 e) \<or>
         (\<exists>e. enc_write enc = Inl (WriteError, e) \<and> counted f0 n0 rs0 e)"
proof -
  obtain bb where bb: "enc_b enc = Some bb" using assms by (auto simp: counted_def)
  show ?thesis
  proof (cases "Buffer_Len bb = 0 \<or> Done enc")
    case True
    then show ?thesis using assms bb by (auto simp: enc_write_def)
  next
    case False
    obtain e1 where e1: "(if Pretty (enc_c enc) then PrettyPrint enc else Inr enc) = Inr e1"
      "counted f0 n0 rs0 e1"
      using PrettyPrint_counted [OF assms] assms by (cases "Pretty (enc_c enc)") auto
    obtain b1 p ws where st: "enc_b e1 = Some b1" "enc_w e1 = Some p" "received p = rs0 @ ws"
      "enc_f e1 = f0 + of_nat (length ws)" "enc_n e1 = n0 + of_nat (length (concat ws))"
      using e1(2) by (auto simp: counted_def)
    have w: "enc_write enc =
        (case Pipe_Write p (Buffer_Bytes b1) of
           (k, err, p') \<Rightarrow>
             if err then Inl (WriteError, e1\<lparr>enc_w := Some p'\<rparr>)
             else Inr (e1\<lparr>enc_w := Some p', enc_b := Some (Buffer_Reset b1),
                          enc_f := enc_f e1 + 1, enc_n := enc_n e1 + of_nat k\<rparr>))"
      using False bb e1(1) st(1,2) by (simp add: enc_write_def andThen_def)
    show ?thesis
    proof (cases "rclosed p \<or> wclosed p")
      case True
      then have "enc_write enc = Inl (WriteError, e1)"
        using w st(2) by (simp add: Pipe_Write_def)
      then show ?thesis using e1(2) by simp
    next
      case False
      let ?e = "e1\<lparr>enc_w := Some (p\<lparr>received := received p @ [Buffer_Bytes b1]\<rparr>),
                   enc_b := Some (Buffer_Reset b1), enc_f := enc_f e1 + 1,
                   enc_n := enc_n e1 + of_nat (length (Buffer_Bytes b1))\<rparr>"
      have "enc_write enc = Inr ?e" using w False by (simp add: Pipe_Write_def)
      moreover have "counted f0 n0 rs0 ?e"
        unfolding counted_def using st
        by (auto intro!: exI [of _ "ws @ [Buffer_Bytes b1]"])
      ultimately show ?thesis by blast
    qed
  qed
qed

lemma step_counted:
  assumes "counted f0 n0 rs0 enc"
  shows "(\<exists>e. step enc x = Inr e \<and> counted f0 n0 rs0 e) \<or>
         (\<exists>e. step enc x = Inl (WriteError, e) \<and> counted f0 n0 rs0 e)"
proof (cases x)
  case (OpAppendByte v)
  then show ?thesis using assms
    by (auto simp: AppendByte_def counted_def)
next
  case (OpAppendBytes v)
  show ?thesis
  proof (cases "Done enc")
    case True
    then show ?thesis using assms OpAppendBytes by (simp add: AppendBytes_def)
  next
    case False
    obtain bb where bb: "enc_b enc = Some bb" using assms by (auto simp: counted_def)
    let ?e1 = "enc\<lparr>enc_b := Some (Buffer_Write bb v)\<rparr>"
    have c1: "counted f0 n0 rs0 ?e1" using assms by (simp add: counted_def)
    have "step enc x = flush ?e1" using False bb OpAppendBytes by (simp add: AppendBytes_def)
    moreover have "flush ?e1 = enc_write ?e1 \<or> flush ?e1 = Inr ?e1"
      by (simp add: flush_def Len_def)
    ultimately show ?thesis using enc_write_counted [OF c1] c1 by auto
  qed
next
  case OpWrite
  then show ?thesis using enc_write_counted [OF assms] by (simp add: Write_def)
next
  case OpClose
  from enc_write_counted [OF assms] show ?thesis
  proof (elim disjE exE conjE)
    fix e assume e: "enc_write enc = Inr e" "counted f0 n0 rs0 e"
    then obtain p where "enc_w e = Some p" by (auto simp: counted_def)
    then have "step enc x = Inr (cancel e\<lparr>enc_w := Some (Pipe_Close p)\<rparr>)"
      using e(1) OpClose by (simp add: Close_def Write_def andThen_def cancel_def)
    moreover have "counted f0 n0 rs0 (cancel e\<lparr>enc_w := Some (Pipe_Close p)\<rparr>)"
      using e(2) \<open>enc_w e = Some p\<close> by (auto simp: counted_def cancel_def Pipe_Close_def)
    ultimately show ?thesis by blast
  next
    fix e assume "enc_write enc = Inl (WriteError, e)" "counted f0 n0 rs0 e"
    then show ?thesis using OpClose by (simp add: Close_def Write_def andThen_def)
  qed
next
  case OpPrettyPrint
  then show ?thesis using PrettyPrint_counted [OF assms] by auto
next
  case (OpSetConfig cfg)
  then show ?thesis using assms by (simp add: SetConfig_def counted_def)
next
  case EvReaderClose
  then show ?thesis using assms
    by (auto simp: reader_close_def counted_def Pipe_CloseReader_def)
next
  case EvTimeout
  then show ?thesis using assms
    by (auto simp: timeout_fires_def counted_def Pipe_Close_def cancel_def Let_def)
qed

lemma run_counted:
  "counted f0 n0 rs0 enc \<Longrightarrow>
   (\<exists>e. run enc ops = Inr e \<and> counted f0 n0 rs0 e) \<or>
   (\<exists>e. run enc ops = Inl (WriteError, e) \<and> counted f0 n0 rs0 e)"
proof (induction ops arbitrary: enc)
  case Nil
  then show ?case by simp
next
  case (Cons x xs)
  from step_counted [OF Cons.prems, of x] show ?case
  proof (elim disjE exE conjE)
    fix e assume e: "step enc x = Inr e" "counted f0 n0 rs0 e"
    then show ?thesis using Cons.IH [OF e(2)] by (simp add: andThen_def)
  next
    fix e assume "step enc x = Inl (WriteError, e)" "counted f0 n0 rs0 e"
    then show ?thesis by (simp add: andThen_def)
  qed
qed

lemma Release_recovers:
  assumes "enc_b e = Some bb" and "enc_w e = Some p"
  shows "\<exists>res. Release e (Some pv) = Inr ((enc_f e, enc_n e, Buffer_Cap bb), res) \<and>
           cancelled (rel_enc res) \<and> rel_sink res = Some (Pipe_Close p) \<and>
           enc_b (rel_enc res) = None \<and> enc_w (rel_enc res) = None"
  using assms
  by (simp add: Release_def andThen_def cancel_def Encoder_Reset_def Let_def)

text \<open>
  Without a pipe (\<^verbatim>\<open>GetEncoder(nil)\<close>) there is no failed write: the panic of a flush is
  the nil dereference, and \<^verbatim>\<open>Release\<close> panics again when it closes the nil pipe.
\<close>

lemma Release_nil_pipe:
  "enc_w e = None \<Longrightarrow> Release e (Some pv) = Inl (NilPointer, cancel e)"
  by (simp add: Release_def andThen_def Let_def cancel_def)

text \<open>
  C4. Take an acquired encoder attached to a pipe, any sequence of calls and events, and
  suppose that it ends in the panic of a failed write. Then the deferred \<^verbatim>\<open>Release\<close>
  returns normally. Its first two results are the counters at acquisition plus the number
  and the total length of the slices \<open>ws\<close> that the pipe took during the acquisition, so the
  failed write is not counted; the third is the capacity of the buffer. The context is
  cancelled and the pipe is closed.
\<close>

theorem Release_after_failed_write:
  assumes "enc_b enc \<noteq> None" and "enc_w enc = Some p0"
    and "run enc ops = Inl (WriteError, e)"
  shows "\<exists>ws p bb res. enc_w e = Some p \<and> received p = received p0 @ ws \<and> enc_b e = Some bb \<and>
           deferred_Release (\<lambda>x. run x ops) enc =
             Inr ((enc_f enc + of_nat (length ws), enc_n enc + of_nat (length (concat ws)),
                   Buffer_Cap bb), res) \<and>
           cancelled (rel_enc res) \<and> rel_sink res = Some (Pipe_Close p)"
proof -
  have "counted (enc_f enc) (enc_n enc) (received p0) enc"
    using assms(1,2) by (simp add: counted_def)
  from run_counted [OF this, of ops] assms(3)
  have c: "counted (enc_f enc) (enc_n enc) (received p0) e" by auto
  then obtain bb p ws where st: "enc_b e = Some bb" "enc_w e = Some p"
    "received p = received p0 @ ws" "enc_f e = enc_f enc + of_nat (length ws)"
    "enc_n e = enc_n enc + of_nat (length (concat ws))"
    by (auto simp: counted_def)
  obtain res where "Release e (Some WriteError) = Inr ((enc_f e, enc_n e, Buffer_Cap bb), res)"
    "cancelled (rel_enc res)" "rel_sink res = Some (Pipe_Close p)"
    using Release_recovers [OF st(1,2)] by blast
  then show ?thesis using st assms(3) by (simp add: deferred_Release_def)
qed

text \<open>
  The test \<^verbatim>\<open>recovers\<close> of the repository, with one successful write before: three bytes
  are written, one more is appended, the reader closes its end, and the next write fails.
  \<^verbatim>\<open>Release\<close> reports one write and three bytes.
\<close>

lemma ex_run_fails:
  "\<exists>e. run ex_enc [OpAppendBytes [1, 2, 3], OpWrite, OpAppendByte 1, EvReaderClose, OpWrite]
         = Inl (WriteError, e)"
  by (simp add: andThen_def AppendByte_live AppendBytes_below ex_enc_simps
      Write_def enc_write_def Done_def Pipe_Write_def reader_close_def Pipe_CloseReader_def
      Buffer_Bytes_def Buffer_Len_def Buffer_Reset_def buf_Buffer_Write
      ex_buffer_def ex_pipe_def MAXBUFSIZE_def)

lemma ex_run_released:
  "released_view
     (deferred_Release
        (\<lambda>x. run x [OpAppendBytes [1, 2, 3], OpWrite, OpAppendByte 1, EvReaderClose, OpWrite])
        ex_enc)
   = Inr (1, 3, 4096, True, Some \<lparr>received = [[1, 2, 3]], rclosed = True, wclosed = True\<rparr>)"
  by (simp add: released_view_def deferred_Release_def Release_def Encoder_Reset_def cancel_def
      Pipe_Close_def Buffer_Cap_def Let_def
      andThen_def AppendByte_live AppendBytes_below ex_enc_simps
      Write_def enc_write_def Done_def Pipe_Write_def reader_close_def Pipe_CloseReader_def
      Buffer_Bytes_def Buffer_Len_def Buffer_Reset_def Buffer_Write_def
      ex_buffer_def ex_pipe_def MAXBUFSIZE_def)

theorem Release_after_failed_write_witness:
  "enc_b ex_enc \<noteq> None \<and> enc_w ex_enc = Some ex_pipe \<and>
   observe (run ex_enc [OpAppendBytes [1, 2, 3], OpWrite, OpAppendByte 1, EvReaderClose, OpWrite])
     = Inl WriteError \<and>
   released_view
     (deferred_Release
        (\<lambda>x. run x [OpAppendBytes [1, 2, 3], OpWrite, OpAppendByte 1, EvReaderClose, OpWrite])
        ex_enc)
   = Inr (1, 3, 4096, True, Some \<lparr>received = [[1, 2, 3]], rclosed = True, wclosed = True\<rparr>)"
proof -
  obtain e where e:
    "run ex_enc [OpAppendBytes [1, 2, 3], OpWrite, OpAppendByte 1, EvReaderClose, OpWrite]
       = Inl (WriteError, e)"
    using ex_run_fails by blast
  have h: "enc_b ex_enc \<noteq> None" "enc_w ex_enc = Some ex_pipe"
    by (simp_all add: ex_enc_simps)
  from Release_after_failed_write [OF h e]
  obtain res fnc where
    "deferred_Release
       (\<lambda>x. run x [OpAppendBytes [1, 2, 3], OpWrite, OpAppendByte 1, EvReaderClose, OpWrite])
       ex_enc = Inr (fnc, res)"
    "cancelled (rel_enc res)"
    by blast
  then show ?thesis
    using h e ex_run_released by (simp add: observe_def)
qed

subsection \<open>Keyed timestamps\<close>

lemma chunks_ISO8601:
  "layout_chunks ISO8601 =
     [stdLongYear, Lit CHR ''-'', stdZeroMonth, Lit CHR ''-'', stdZeroDay, Lit CHR ''T'',
      stdHour, Lit CHR '':'', stdZeroMinute, Lit CHR '':'', stdZeroSecond]"
  by (simp add: ISO8601_def layout_chunks.simps)

lemma chunks_ISO8601u:
  "layout_chunks ISO8601u =
     [stdLongYear, Lit CHR ''-'', stdZeroMonth, Lit CHR ''-'', stdZeroDay, Lit CHR ''T'',
      stdHour, Lit CHR '':'', stdZeroMinute, Lit CHR '':'', stdZeroSecond,
      Lit CHR ''+'', Lit CHR ''0'', Lit CHR ''0'']"
  by (simp add: ISO8601u_def layout_chunks.simps)

lemma AppendFormat_ISO8601: "AppendFormat cv ISO8601 = iso8601_text cv"
  by (simp add: AppendFormat_def chunks_ISO8601 iso8601_text_def bytes_of_def)

lemma AppendFormat_ISO8601u: "AppendFormat cv ISO8601u = iso8601_text cv @ bytes_of ''+00''"
  by (simp add: AppendFormat_def chunks_ISO8601u iso8601_text_def bytes_of_def)

lemma decimal_length_1: "k < 10 \<Longrightarrow> length (decimal k) = 1"
  by (simp add: decimal.simps)

lemma decimal_length_2: "10 \<le> k \<Longrightarrow> k < 100 \<Longrightarrow> length (decimal k) = 2"
  by (subst decimal.simps) (simp add: decimal_length_1)

lemma decimal_length_3: "100 \<le> k \<Longrightarrow> k < 1000 \<Longrightarrow> length (decimal k) = 3"
  by (subst decimal.simps) (simp add: decimal_length_2)

lemma decimal_length_4: "1000 \<le> k \<Longrightarrow> k < 10000 \<Longrightarrow> length (decimal k) = 4"
  by (subst decimal.simps) (simp add: decimal_length_3)

lemma appendInt_length_2: "k < 100 \<Longrightarrow> length (appendInt k 2) = 2"
  using decimal_length_1 [of k] decimal_length_2 [of k]
  by (cases "k < 10") (simp_all add: appendInt_def)

lemma appendInt_length_4: "k < 10000 \<Longrightarrow> length (appendInt k 4) = 4"
  using decimal_length_1 [of k] decimal_length_2 [of k] decimal_length_3 [of k]
    decimal_length_4 [of k]
  by (cases "k < 10"; cases "k < 100"; cases "k < 1000") (simp_all add: appendInt_def)

lemma appendInt_digits: "list_all (\<lambda>c. 48 \<le> c \<and> c \<le> 57) (appendInt k w)"
  using decimal_digits [of k] by (auto simp: appendInt_def list_all_iff)

lemma iso8601_text_length: "civil_ok cv \<Longrightarrow> length (iso8601_text cv) = 19"
  by (simp add: civil_ok_def iso8601_text_def appendInt_length_2 appendInt_length_4 bytes_of_def)

lemma WriteUint32Timestamp_fst:
  "fst (WriteUint32Timestamp clock m pick enc key v dl)
     = (case scratch m pick
               (if UTCTimestamps (enc_c enc) then AppendFormat (clock True (ucast v)) ISO8601u
                else AppendFormat (clock False (ucast v)) ISO8601) of
          (m2, b2) \<Rightarrow> stamped enc (slice_read m2 key) (slice_read m2 (Buf_Bytes b2)) dl)"
  by (simp add: WriteUint32Timestamp_def scratch_def andThen_case stamped_def andThen_assoc
      split: prod.splits)

lemma WriteUint32Timestamp_apart:
  assumes "apart m key"
    and "stamp = (if UTCTimestamps (enc_c enc)
                 then iso8601_text (clock True (ucast v)) @ bytes_of ''+00''
                 else iso8601_text (clock False (ucast v)))"
  shows "fst (WriteUint32Timestamp clock m pick enc key v dl)
           = stamped enc (slice_read m key) stamp dl"
proof -
  have t: "(if UTCTimestamps (enc_c enc) then AppendFormat (clock True (ucast v)) ISO8601u
            else AppendFormat (clock False (ucast v)) ISO8601) = stamp"
    using assms(2) by (simp add: AppendFormat_ISO8601 AppendFormat_ISO8601u)
  obtain m2 b2 where s: "scratch m pick stamp = (m2, b2)"
    by (cases "scratch m pick stamp") auto
  show ?thesis
    using scratch_apart [OF assms(1) s] by (simp only: WriteUint32Timestamp_fst t s prod.case)
qed

lemma stamped_below:
  assumes "enc_b enc = Some bb" and "buf bb = []" and "\<not> cancelled enc"
    and "length key + length stamp + 4 < MAXBUFSIZE"
  shows "\<exists>bb'. stamped enc key stamp dl = Inr (enc\<lparr>enc_b := Some bb'\<rparr>) \<and>
           buf bb' = [quoteMark] @ key @ [quoteMark, colon, quoteMark] @ stamp @ [quoteMark]
                      @ (if dl then [delim] else [])"
  using assms
  by (auto simp: stamped_def ObjectKey_def EncodeKey_def Delim_def andThen_def
      AppendByte_live AppendBytes_below buf_Buffer_Write Let_def intro!: exI)

lemma stamped_open_plain:
  assumes "open_plain enc"
  shows "\<exists>e. stamped enc key stamp dl = Inr e \<and> open_plain e \<and>
             stream e = stream enc @ [quoteMark] @ key @ [quoteMark, colon, quoteMark] @ stamp
               @ [quoteMark] @ (if dl then [delim] else [])"
proof -
  obtain e1 where e1: "ObjectKey enc key = Inr e1" "open_plain e1"
    "stream e1 = stream enc @ [quoteMark] @ key @ [quoteMark, colon]"
    using ObjectKey_open_plain [OF assms(1)] by blast
  obtain e2 where e2: "EncodeKey e1 stamp = Inr e2" "open_plain e2"
    "stream e2 = stream e1 @ [quoteMark] @ stamp @ [quoteMark]"
    using EncodeKey_open_plain [OF e1(2)] by blast
  obtain e3 where e3: "(if dl then Delim e2 else Inr e2) = Inr e3" "open_plain e3"
    "stream e3 = stream e2 @ (if dl then [delim] else [])"
    using Delim_if_open_plain [OF e2(2)] by blast
  have "stamped enc key stamp dl =
      andThen (ObjectKey enc key) (\<lambda>e1. andThen (EncodeKey e1 stamp) (\<lambda>e4.
        if dl then Delim e4 else Inr e4))"
    by (auto simp: stamped_def EncodeKey_def andThen_def split: sum.splits)
  then show ?thesis using e1 e2 e3 by (simp add: andThen_def)
qed

lemma stamped_cancelled: "cancelled enc \<Longrightarrow> stamped enc key stamp dl = Inr enc"
  by (simp add: stamped_def ObjectKey_def EncodeKey_def Delim_def andThen_def AppendByte_def
      AppendBytes_def Done_def)

text \<open>
  C8, as the code has it. For every unix-seconds value, with \<open>stamp\<close> the text that the
  encoder's configuration selects: the layout \<^verbatim>\<open>ISO8601\<close> renders the calendar fields as
  \<^verbatim>\<open>YYYY-MM-DDTHH:MM:SS\<close> (19 bytes, all digits but the five separators), which with UTC
  disabled is applied to the local time; the layout \<^verbatim>\<open>ISO8601u\<close>, which with UTC enabled
  is applied to the UTC time, renders the same pattern followed by the three bytes \<^verbatim>\<open>+00\<close>,
  which are literal. Let the key be a slice that shares no array with a buffer of the
  pool, and \<open>K\<close> its bytes. Whichever buffer the pool hands out, \<^verbatim>\<open>WriteUint32Timestamp\<close>
  puts the text between quote marks after \<^verbatim>\<open>"K":\<close>: into the buffer of an encoder
  with an empty buffer and an unfired token while the threshold is not reached, and
  into the stream of an open and plain encoder for a key of any length.
\<close>

theorem WriteUint32Timestamp_format:
  assumes "stamp = (if UTCTimestamps (enc_c enc)
                   then iso8601_text (clock True (ucast v)) @ bytes_of ''+00''
                   else iso8601_text (clock False (ucast v)))"
    and "apart m key" and "K = slice_read m key"
  shows
    "AppendFormat cv ISO8601 = iso8601_text cv \<and>
     AppendFormat cv ISO8601u = iso8601_text cv @ bytes_of ''+00'' \<and>
     (civil_ok cv \<longrightarrow> length (iso8601_text cv) = 19) \<and>
     (enc_b enc = Some bb \<and> buf bb = [] \<and> \<not> cancelled enc \<and>
      length K + length stamp + 4 < MAXBUFSIZE \<longrightarrow>
        (\<exists>bb'. fst (WriteUint32Timestamp clock m pick enc key v dl)
                 = Inr (enc\<lparr>enc_b := Some bb'\<rparr>) \<and>
               buf bb' = [quoteMark] @ K @ [quoteMark, colon, quoteMark] @ stamp @ [quoteMark]
                          @ (if dl then [delim] else []))) \<and>
     (open_plain enc \<longrightarrow>
        (\<exists>e. fst (WriteUint32Timestamp clock m pick enc key v dl) = Inr e \<and>
             stream e = stream enc @ [quoteMark] @ K @ [quoteMark, colon, quoteMark] @ stamp
                          @ [quoteMark] @ (if dl then [delim] else [])))"
proof (intro conjI impI)
  show "AppendFormat cv ISO8601 = iso8601_text cv" by (rule AppendFormat_ISO8601)
  show "AppendFormat cv ISO8601u = iso8601_text cv @ bytes_of ''+00''"
    by (rule AppendFormat_ISO8601u)
next
  assume "civil_ok cv"
  then show "length (iso8601_text cv) = 19" by (rule iso8601_text_length)
next
  assume "enc_b enc = Some bb \<and> buf bb = [] \<and> \<not> cancelled enc \<and>
    length K + length stamp + 4 < MAXBUFSIZE"
  then show "\<exists>bb'. fst (WriteUint32Timestamp clock m pick enc key v dl)
                 = Inr (enc\<lparr>enc_b := Some bb'\<rparr>) \<and>
      buf bb' = [quoteMark] @ K @ [quoteMark, colon, quoteMark] @ stamp @ [quoteMark]
                 @ (if dl then [delim] else [])"
    using stamped_below [of enc bb K stamp dl]
      WriteUint32Timestamp_apart [where m = m and key = key and stamp = stamp and enc = enc
        and clock = clock and v = v and pick = pick and dl = dl] assms
    by simp
next
  assume "open_plain enc"
  then show "\<exists>e. fst (WriteUint32Timestamp clock m pick enc key v dl) = Inr e \<and>
      stream e = stream enc @ [quoteMark] @ K @ [quoteMark, colon, quoteMark] @ stamp
                   @ [quoteMark] @ (if dl then [delim] else [])"
    using stamped_open_plain [of enc K stamp dl]
      WriteUint32Timestamp_apart [where m = m and key = key and stamp = stamp and enc = enc
        and clock = clock and v = v and pick = pick and dl = dl] assms
    by auto
qed

text \<open>
  The tests \<^verbatim>\<open>local\<close> and \<^verbatim>\<open>utc\<close> of the repository: the instant 0 under the key
  \<^verbatim>\<open>timestamp\<close>, in a zone one hour east of UTC and in UTC, 33 and 36 bytes.
\<close>

lemma iso8601_text_ex:
  "iso8601_text (ex_clock False t) = bytes_of ''1970-01-01T01:00:00''"
  "iso8601_text (ex_clock True t) = bytes_of ''1970-01-01T00:00:00''"
  by (simp_all add: iso8601_text_def ex_clock_def appendInt_def decimal.simps bytes_of_def)

lemma ex_pool_ts: "apart ex_pool ex_ts" "slice_read ex_pool ex_ts = bytes_of ''timestamp''"
  by code_simp+

theorem WriteUint32Timestamp_format_witness:
  "civil_ok (ex_clock False 0) \<and> open_plain ex_enc \<and> apart ex_pool ex_ts \<and>
   bytes_of ''timestamp'' = slice_read ex_pool ex_ts \<and>
   length (iso8601_text (ex_clock False 0)) = 19 \<and>
   observe (fst (WriteUint32Timestamp ex_clock ex_pool 0 ex_enc ex_ts 0 False))
     = Inr ([quoteMark] @ bytes_of ''timestamp'' @ [quoteMark, colon, quoteMark]
            @ bytes_of ''1970-01-01T01:00:00'' @ [quoteMark], []) \<and>
   observe (fst (WriteUint32Timestamp ex_clock ex_pool 0
                   (SetConfig ex_enc ((enc_c ex_enc)\<lparr>UTCTimestamps := True\<rparr>)) ex_ts 0 False))
     = Inr ([quoteMark] @ bytes_of ''timestamp'' @ [quoteMark, colon, quoteMark]
            @ bytes_of ''1970-01-01T00:00:00+00'' @ [quoteMark], [])"
proof -
  let ?u = "SetConfig ex_enc ((enc_c ex_enc)\<lparr>UTCTimestamps := True\<rparr>)"
  let ?b = "ex_buffer\<lparr>cap := 4096\<rparr>"
  have ok: "civil_ok (ex_clock False 0)" by (simp add: civil_ok_def ex_clock_def)
  have o: "open_plain ex_enc" by (simp add: open_plain_def ex_enc_simps ex_pipe_def)
  have k: "bytes_of ''timestamp'' = slice_read ex_pool ex_ts" by (simp add: ex_pool_ts)
  have t1: "bytes_of ''1970-01-01T01:00:00'' =
      (if UTCTimestamps (enc_c ex_enc)
       then iso8601_text (ex_clock True (ucast (0 :: 32 word))) @ bytes_of ''+00''
       else iso8601_text (ex_clock False (ucast (0 :: 32 word))))"
    by (simp add: ex_enc_simps iso8601_text_ex)
  have t2: "bytes_of ''1970-01-01T00:00:00+00'' =
      (if UTCTimestamps (enc_c ?u)
       then iso8601_text (ex_clock True (ucast (0 :: 32 word))) @ bytes_of ''+00''
       else iso8601_text (ex_clock False (ucast (0 :: 32 word))))"
    by (simp add: SetConfig_def iso8601_text_ex bytes_of_def)
  have h1: "enc_b ex_enc = Some ?b \<and> buf ?b = [] \<and> \<not> cancelled ex_enc \<and>
      length (bytes_of ''timestamp'') + length (bytes_of ''1970-01-01T01:00:00'') + 4 < MAXBUFSIZE"
    by (simp add: ex_enc_simps ex_buffer_def bytes_of_def MAXBUFSIZE_def)
  have h2: "enc_b ?u = Some ?b \<and> buf ?b = [] \<and> \<not> cancelled ?u \<and>
      length (bytes_of ''timestamp'') + length (bytes_of ''1970-01-01T00:00:00+00'') + 4
        < MAXBUFSIZE"
    by (simp add: SetConfig_def ex_enc_simps ex_buffer_def bytes_of_def MAXBUFSIZE_def)
  from WriteUint32Timestamp_format [where enc = ex_enc and clock = ex_clock and v = 0
      and stamp = "bytes_of ''1970-01-01T01:00:00''" and cv = "ex_clock False 0" and bb = ?b
      and m = ex_pool and key = ex_ts and K = "bytes_of ''timestamp''" and pick = 0
      and dl = False, OF t1 ex_pool_ts(1) k] ok h1
  obtain b1 where r1:
    "fst (WriteUint32Timestamp ex_clock ex_pool 0 ex_enc ex_ts 0 False)
       = Inr (ex_enc\<lparr>enc_b := Some b1\<rparr>)"
    "buf b1 = [quoteMark] @ bytes_of ''timestamp'' @ [quoteMark, colon, quoteMark]
       @ bytes_of ''1970-01-01T01:00:00'' @ [quoteMark]"
    "length (iso8601_text (ex_clock False 0)) = 19"
    by auto
  from WriteUint32Timestamp_format [where enc = ?u and clock = ex_clock and v = 0
      and stamp = "bytes_of ''1970-01-01T00:00:00+00''" and cv = "ex_clock False 0" and bb = ?b
      and m = ex_pool and key = ex_ts and K = "bytes_of ''timestamp''" and pick = 0
      and dl = False, OF t2 ex_pool_ts(1) k] h2
  obtain b2 where r2:
    "fst (WriteUint32Timestamp ex_clock ex_pool 0 ?u ex_ts 0 False)
       = Inr (?u\<lparr>enc_b := Some b2\<rparr>)"
    "buf b2 = [quoteMark] @ bytes_of ''timestamp'' @ [quoteMark, colon, quoteMark]
       @ bytes_of ''1970-01-01T00:00:00+00'' @ [quoteMark]"
    by auto
  show ?thesis
    using ok o r1 r2 ex_pool_ts
    by (simp add: observe_def pending_def delivered_def Buffer_Bytes_def SetConfig_def
        ex_enc_simps ex_pipe_def)
qed

text \<open>
  C8, as stated without a condition on the encoder or the key, fails. On an encoder whose
  token has fired the call appends nothing. And a key that \<^verbatim>\<open>Escape\<close> returned lies in
  the array of a buffer of the pool: the writer gets that buffer for the text and writes
  it over the key before it appends the key, so under the key \<^verbatim>\<open>timestamp\<close> the instant 0
  is appended as \<^verbatim>\<open>"1970-01-0":"1970-01-01T01:00:00"\<close>.
\<close>

lemma timestamp_cancelled:
  "observe (fst (WriteUint32Timestamp ex_clock ex_pool 0 ex_cancelled ex_ts 0 True)) = Inr ([1], [])"
  using WriteUint32Timestamp_apart [where m = ex_pool and key = ex_ts and enc = ex_cancelled
      and clock = ex_clock and v = 0 and pick = 0 and dl = True, OF ex_pool_ts(1) refl]
  by (simp add: stamped_cancelled ex_cancelled_simps observe_def)

lemma escaped_ts_scratch:
  "slice_read (snd (Escape ex_heap 0 ex_ts)) (fst (Escape ex_heap 0 ex_ts)) = bytes_of ''timestamp'' \<and>
   slice_read (fst (scratch (snd (Escape ex_heap 0 ex_ts)) 0 (bytes_of ''1970-01-01T01:00:00'')))
     (fst (Escape ex_heap 0 ex_ts)) = bytes_of ''1970-01-0'' \<and>
   slice_read (fst (scratch (snd (Escape ex_heap 0 ex_ts)) 0 (bytes_of ''1970-01-01T01:00:00'')))
     (Buf_Bytes (snd (scratch (snd (Escape ex_heap 0 ex_ts)) 0 (bytes_of ''1970-01-01T01:00:00''))))
     = bytes_of ''1970-01-01T01:00:00''"
  by code_simp

lemma timestamp_escaped_key:
  "observe (fst (WriteUint32Timestamp ex_clock (snd (Escape ex_heap 0 ex_ts)) 0 ex_enc
                   (fst (Escape ex_heap 0 ex_ts)) 0 False))
     = Inr ([quoteMark] @ bytes_of ''1970-01-0'' @ [quoteMark, colon, quoteMark]
            @ bytes_of ''1970-01-01T01:00:00'' @ [quoteMark], [])"
proof -
  have l: "length (bytes_of ''1970-01-0'') + length (bytes_of ''1970-01-01T01:00:00'') + 4
      < MAXBUFSIZE"
    by (simp add: bytes_of_def MAXBUFSIZE_def)
  have h: "enc_b ex_enc = Some (ex_buffer\<lparr>cap := 4096\<rparr>)" "buf (ex_buffer\<lparr>cap := 4096\<rparr>) = []"
    "\<not> cancelled ex_enc"
    by (simp_all add: ex_enc_simps ex_buffer_def)
  obtain bb' where
    "stamped ex_enc (bytes_of ''1970-01-0'') (bytes_of ''1970-01-01T01:00:00'') False
       = Inr (ex_enc\<lparr>enc_b := Some bb'\<rparr>)"
    "buf bb' = [quoteMark] @ bytes_of ''1970-01-0'' @ [quoteMark, colon, quoteMark]
                 @ bytes_of ''1970-01-01T01:00:00'' @ [quoteMark]"
    using stamped_below [OF h l, of False] by auto
  then show ?thesis
    using escaped_ts_scratch
    by (simp add: WriteUint32Timestamp_fst AppendFormat_ISO8601 iso8601_text_ex split_beta
        observe_def pending_def delivered_def Buffer_Bytes_def ex_enc_simps ex_pipe_def)
qed

theorem WriteUint32Timestamp_counterexample:
  "cancelled ex_cancelled \<and> pending ex_cancelled = [1] \<and>
   observe (fst (WriteUint32Timestamp ex_clock ex_pool 0 ex_cancelled ex_ts 0 True))
     = Inr ([1], []) \<and>
   slice_read (snd (Escape ex_heap 0 ex_ts)) (fst (Escape ex_heap 0 ex_ts))
     = bytes_of ''timestamp'' \<and>
   observe (fst (WriteUint32Timestamp ex_clock (snd (Escape ex_heap 0 ex_ts)) 0 ex_enc
                   (fst (Escape ex_heap 0 ex_ts)) 0 False))
     = Inr ([quoteMark] @ bytes_of ''1970-01-0'' @ [quoteMark, colon, quoteMark]
            @ bytes_of ''1970-01-01T01:00:00'' @ [quoteMark], [])"
  using timestamp_cancelled escaped_ts_scratch timestamp_escaped_key ex_cancelled_simps by simp

subsection \<open>Rounding floats\<close>

























subsection \<open>Tests of the repository, on the model\<close>

text \<open>\<^verbatim>\<open>TestEncoderEncodeKey\<close>, \<^verbatim>\<open>TestEncoderObjectKey\<close>, with a pipe attached.\<close>

lemma test_ObjectKey:
  "observe (ObjectKey ex_enc (bytes_of ''/foo/bar''))
     = Inr ([quoteMark] @ bytes_of ''/foo/bar'' @ [quoteMark, colon], [])"
  by (simp add: observe_def ObjectKey_def EncodeKey_def andThen_def AppendByte_live
      AppendBytes_below ex_enc_simps pending_def delivered_def Buffer_Bytes_def buf_Buffer_Write
      ex_buffer_def ex_pipe_def bytes_of_def MAXBUFSIZE_def)

text \<open>
  \<^verbatim>\<open>TestEncoderFlush\<close>: a flush of the empty buffer writes nothing; with 4096 bytes in the
  buffer it writes them all, once.
\<close>

lemma test_flush_empty: "flush ex_enc = Inr ex_enc"
  by (simp add: flush_def Len_def ex_enc_simps Buffer_Len_def ex_buffer_def MAXBUFSIZE_def)

lemma test_flush_full:
  "\<exists>e. flush (ex_enc\<lparr>enc_b := Some (ex_buffer\<lparr>buf := replicate 4096 0\<rparr>)\<rparr>) = Inr e \<and>
       enc_n e = 4096 \<and> enc_f e = 1 \<and> pending e = [] \<and> delivered e = [replicate 4096 0]"
  by (simp add: flush_def Len_def enc_write_def Done_def andThen_def Pipe_Write_def
      ex_enc_simps pending_def delivered_def Buffer_Len_def Buffer_Bytes_def Buffer_Reset_def
      ex_buffer_def ex_pipe_def MAXBUFSIZE_def)

text \<open>
  \<^verbatim>\<open>TestEncoderPrettyPrint\<close>: the tab mode, and a string split over two passes (the string
  flag is kept on the encoder from one pass to the next).
\<close>

lemma test_pretty_tab_mode:
  "PrettyPrint_loop TAB_MODE
     (bytes_of ''{'' @ [quoteMark] @ bytes_of ''keys'' @ [quoteMark] @ bytes_of '':[]}'')
     0 False [] =
   ([], 0, False,
    bytes_of ''{'' @ [newLine, tab, quoteMark] @ bytes_of ''keys'' @ [quoteMark]
    @ bytes_of '': ['' @ [newLine] @ replicate 2 tab @ [newLine, tab] @ bytes_of '']'' @ [newLine]
    @ bytes_of ''}'')"
  by (simp add: bytes_of_def PrettyPrint_body_def indentNewLine_indent indent_def byte_defs
      TAB_MODE_def INDENT_def)

lemma test_pretty_split_string:
  "PrettyPrint_loop SPACE_MODE ([quoteMark] @ bytes_of ''foo{}[],:'') 0 False []
     = ([], 0, True, [quoteMark] @ bytes_of ''foo{}[],:'')"
  "PrettyPrint_loop SPACE_MODE (bytes_of ''bar{}[],:'' @ [quoteMark]) 0 True []
     = ([], 0, False, bytes_of ''bar{}[],:'' @ [quoteMark])"
  by (simp_all add: bytes_of_def PrettyPrint_body_def byte_defs)

end
